theory Spec2Isabelle
  imports Main "HOL-Library.Word"
begin

section \<open>Score lanes\<close>

text \<open>
  The narrow scalar score is \<open>int8_t\<close>, the widened one \<open>int32_t\<close>; a SIMD score is a
  fixed-size array of scalars, one per lane, modelled as a list.
\<close>

type_synonym scalar_score_t = "8 word"
type_synonym wide_scalar_score_t = "32 word"
type_synonym score_t = "scalar_score_t list"
type_synonym large_score_t = "wide_scalar_score_t list"

text \<open>
  Modelled from the spec: the score lane type (\<open>simd_score_type.hpp\<close> is not among the
  sources). Section 3 and 4.A: element-wise saturating add, subtract and max; out-of-range
  results saturate to the representable extremes, never wrap.
\<close>

definition saturate :: "int \<Rightarrow> scalar_score_t" where
  "saturate x = word_of_int (max (- 128) (min 127 x))"

definition add_sat :: "scalar_score_t \<Rightarrow> scalar_score_t \<Rightarrow> scalar_score_t" where
  "add_sat a b = saturate (sint a + sint b)"

definition sub_sat :: "scalar_score_t \<Rightarrow> scalar_score_t \<Rightarrow> scalar_score_t" where
  "sub_sat a b = saturate (sint a - sint b)"

definition max_s :: "scalar_score_t \<Rightarrow> scalar_score_t \<Rightarrow> scalar_score_t" where
  "max_s a b = (if sint a < sint b then b else a)"

definition simd_add :: "score_t \<Rightarrow> score_t \<Rightarrow> score_t" where
  "simd_add xs ys = map2 add_sat xs ys"

definition simd_sub :: "score_t \<Rightarrow> score_t \<Rightarrow> score_t" where
  "simd_sub xs ys = map2 sub_sat xs ys"

definition simd_max :: "score_t \<Rightarrow> score_t \<Rightarrow> score_t" where
  "simd_max xs ys = map2 max_s xs ys"

text \<open>
  The widened lane: \<open>large_score_t{x}\<close> converts every lane of a narrow score with sign
  extension; \<open>-\<close> and \<open>+=\<close> on \<open>simd_score<int32_t, N>\<close> are element-wise machine arithmetic.
\<close>

definition widen :: "score_t \<Rightarrow> large_score_t" where
  "widen xs = map scast xs"

definition wide_add :: "large_score_t \<Rightarrow> large_score_t \<Rightarrow> large_score_t" where
  "wide_add xs ys = map2 (+) xs ys"

definition wide_sub :: "large_score_t \<Rightarrow> large_score_t \<Rightarrow> large_score_t" where
  "wide_sub xs ys = map2 (-) xs ys"

section \<open>The affine recurrence kernel\<close>

text \<open>
  \<open>affine_dp_algorithm\<close> is a template over the score type: the model takes the score
  type's \<open>+\<close> and \<open>max\<close> as arguments, \<open>_score_model.score\<close> as the function
  \<open>score_fn\<close> and the gap model as a record.
\<close>

record 's gap_model =
  gap_open_score :: 's
  gap_extension_score :: 's

text \<open>
  \<open>compute_cell\<close> mutates \<open>cache\<close> and \<open>column_cell\<close> in place; the model returns the
  pair (new cache, new column cell). Every binding below is one assignment of the source,
  in its order.
\<close>

definition compute_cell ::
  "('s \<Rightarrow> 's \<Rightarrow> 's) \<Rightarrow> ('s \<Rightarrow> 's \<Rightarrow> 's) \<Rightarrow> ('a \<Rightarrow> 'b \<Rightarrow> 's) \<Rightarrow> 's gap_model \<Rightarrow>
   's \<times> 's \<Rightarrow> 's \<times> 's \<Rightarrow> 'a \<Rightarrow> 'b \<Rightarrow> ('s \<times> 's) \<times> ('s \<times> 's)" where
  "compute_cell add mx score_fn gm cache column_cell seq1_val seq2_val =
     (let (next_diagonal, horizontal_score) = column_cell;
          first1 = add (fst cache) (score_fn seq1_val seq2_val);
          first2 = mx (mx first1 (snd cache)) horizontal_score;
          cell0 = first2;
          first3 = add first2 (add (gap_open_score gm) (gap_extension_score gm));
          second1 = mx (add (snd cache) (gap_extension_score gm)) first3;
          cell1 = mx (add horizontal_score (gap_extension_score gm)) first3
      in ((next_diagonal, second1), (cell0, cell1)))"

section \<open>The saturated DP vector and its wrapper\<close>

text \<open>
  An affine cell is tuple-like: \<open>get<0>\<close> is the best score \<open>m\<close> (also returned by
  \<open>score()\<close>), \<open>get<1>\<close> the gap score \<open>v\<close>.
\<close>

type_synonym affine_cell = "score_t \<times> score_t"

text \<open>
  Modelled from the spec: the wrapped saturated DP vector (its header is not among the
  sources). Section 3 and 4.B: an ordered sequence of cells (\<open>base()\<close>), a wide offset
  (\<open>offset()\<close>) and the saturated zero offset \<open>ZERO\<close> (\<open>saturated_zero_offset()\<close>).
\<close>

record dp_vector_saturated =
  base :: "affine_cell list"
  offset :: large_score_t
  saturated_zero_offset :: score_t

text \<open>
  Modelled from the spec: \<open>_dp_vector.update_offset(new_offset)\<close> of the wrapped vector.
  Section 4.G step 3: the stored offset becomes \<open>offset + \<Delta> - ZERO\<close>, computed in wide
  arithmetic; the cells are not touched (4.B).
\<close>

definition dp_vector_update_offset :: "dp_vector_saturated \<Rightarrow> score_t \<Rightarrow> dp_vector_saturated" where
  "dp_vector_update_offset v new_offset =
     v\<lparr>offset := wide_sub (wide_add (offset v) (widen new_offset))
                          (widen (saturated_zero_offset v))\<rparr>"

text \<open>
  \<open>_wrapper::reset\<close>: for every cell, first every component \<open>-= new_offset\<close>, then every
  component \<open>+= saturated_zero_offset()\<close>, in the narrow type.
\<close>

definition reset_cell :: "score_t \<Rightarrow> score_t \<Rightarrow> affine_cell \<Rightarrow> affine_cell" where
  "reset_cell new_offset zero c =
     (let (value0, value1) = c;
          value0 = simd_sub value0 new_offset;
          value1 = simd_sub value1 new_offset
      in (simd_add value0 zero, simd_add value1 zero))"

definition reset :: "dp_vector_saturated \<Rightarrow> score_t \<Rightarrow> dp_vector_saturated" where
  "reset v new_offset =
     v\<lparr>base := map (reset_cell new_offset (saturated_zero_offset v)) (base v)\<rparr>"

definition update_offset_impl :: "dp_vector_saturated \<Rightarrow> score_t \<Rightarrow> dp_vector_saturated" where
  "update_offset_impl v new_offset = dp_vector_update_offset (reset v new_offset) new_offset"

text \<open>
  The text of the \<open>std::runtime_error\<close> thrown inside \<open>check_saturated_arithmetic\<close>, as
  a record of the values it prints.
\<close>

record diagnostic =
  diag_i :: nat
  diag_k :: nat
  diag_real_score :: scalar_score_t
  diag_expected_score :: wide_scalar_score_t
  diag_cell :: "scalar_score_t \<times> scalar_score_t"
  diag_offset :: scalar_score_t
  diag_zero_offset :: scalar_score_t

datatype error = OutOfBounds | SaturationRebase diagnostic

text \<open>
  The loop \<open>for (k = 0; k < score_t::size; ++k)\<close>: the first lane whose expected and real
  score differ. Both are compared as integers (\<open>int32_t\<close> against a promoted \<open>int8_t\<close>).
\<close>

fun first_mismatch :: "nat \<Rightarrow> large_score_t \<Rightarrow> score_t \<Rightarrow> nat option" where
  "first_mismatch k (e # es) (r # rs) =
     (if sint e \<noteq> sint r then Some k else first_mismatch (Suc k) es rs)"
| "first_mismatch k es rs = None"

text \<open>
  The check of one component \<open>x\<close> (\<open>get<0>\<close> or \<open>get<1>\<close>) of cell \<open>i\<close>: \<open>expected_score\<close>
  in the wide type, \<open>real_score\<close> in the narrow one, and the error thrown at the first lane
  where they differ.
\<close>

definition check_component ::
  "nat \<Rightarrow> score_t \<Rightarrow> affine_cell \<Rightarrow> score_t \<Rightarrow> score_t \<Rightarrow> diagnostic option" where
  "check_component i x cell new_offset zero =
     (let expected_score = wide_add (wide_sub (widen x) (widen new_offset)) (widen zero);
          real_score = simd_add (simd_sub x new_offset) zero
      in case first_mismatch 0 expected_score real_score of
           None \<Rightarrow> None
         | Some k \<Rightarrow> Some \<lparr>diag_i = i, diag_k = k,
                           diag_real_score = real_score ! k,
                           diag_expected_score = expected_score ! k,
                           diag_cell = (fst cell ! k, snd cell ! k),
                           diag_offset = new_offset ! k,
                           diag_zero_offset = zero ! k\<rparr>)"

text \<open>
  The loop over the cells: \<open>get<0>\<close> is checked for every \<open>i\<close>, \<open>get<1>\<close> only for
  \<open>i > 0\<close>. The first throw leaves the loop.
\<close>

fun check_cells :: "nat \<Rightarrow> affine_cell list \<Rightarrow> score_t \<Rightarrow> score_t \<Rightarrow> diagnostic option" where
  "check_cells i [] new_offset zero = None"
| "check_cells i (c # cs) new_offset zero =
     (case check_component i (fst c) c new_offset zero of
        Some d \<Rightarrow> Some d
      | None \<Rightarrow>
         (case (if i > 0 then check_component i (snd c) c new_offset zero else None) of
            Some d \<Rightarrow> Some d
          | None \<Rightarrow> check_cells (Suc i) cs new_offset zero))"

text \<open>
  \<open>check_saturated_arithmetic\<close> returns \<open>None\<close> where the source returns \<open>true\<close>, and
  \<open>Some d\<close> where it writes the diagnostic \<open>d\<close> to \<open>std::cerr\<close> and returns \<open>false\<close>.
\<close>

definition check_saturated_arithmetic :: "dp_vector_saturated \<Rightarrow> score_t \<Rightarrow> diagnostic option" where
  "check_saturated_arithmetic v new_offset =
     check_cells 0 (base v) new_offset (saturated_zero_offset v)"

text \<open>
  \<open>_wrapper::update_offset\<close>. The pivot index is the value of \<open>is_row_cell_v<value_type>\<close>
  converted to \<open>size_t\<close>; the trait is a parameter. \<open>debug\<close> says whether \<open>assert\<close> is
  compiled in: a failed assertion ends the program with the diagnostic. Reading the pivot
  beyond the end of the vector has no defined behaviour and is the error \<open>OutOfBounds\<close>.
\<close>

definition update_offset :: "bool \<Rightarrow> bool \<Rightarrow> dp_vector_saturated \<Rightarrow> error + dp_vector_saturated" where
  "update_offset debug is_row_cell v =
     (let pos = (of_bool is_row_cell :: nat)
      in if pos < length (base v)
         then (let new_offset = fst (base v ! pos)
               in case (if debug then check_saturated_arithmetic v new_offset else None) of
                    Some d \<Rightarrow> Inl (SaturationRebase d)
                  | None \<Rightarrow> Inr (update_offset_impl v new_offset))
         else Inl OutOfBounds)"

section \<open>Lanes\<close>

text \<open>
  A block hands out its row and column segment (\<open>row()\<close>, \<open>column()\<close>). A lane keeps the
  block, \<open>lane_width\<close> cached row cells and \<open>_row_offset\<close>.
\<close>

record ('r, 'c) dp_block =
  row :: "'r list"
  column :: "'c list"

record ('r, 'c) lane =
  dp_block :: "('r, 'c) dp_block"
  cached_row :: "'r list"
  row_offset :: nat

text \<open>
  \<open>size_t\<close> is 64 bits wide; sums and differences of indices wrap around.
\<close>

definition size_t_add :: "nat \<Rightarrow> nat \<Rightarrow> nat" where
  "size_t_add a b = (a + b) mod 2 ^ 64"

definition size_t_sub :: "nat \<Rightarrow> nat \<Rightarrow> nat" where
  "size_t_sub a b = (a + 2 ^ 64 - b mod 2 ^ 64) mod 2 ^ 64"

text \<open>
  \<open>unroll_load\<close> and \<open>unroll_store\<close>: the fold expression over the index sequence, one
  assignment per index, left to right. \<open>operator[]\<close> of \<open>std::array\<close> and of the row vector
  is unchecked; an index beyond the end has no defined behaviour and is the error
  \<open>OutOfBounds\<close>.
\<close>

fun unroll_load :: "'r list \<Rightarrow> 'r list \<Rightarrow> nat \<Rightarrow> nat list \<Rightarrow> error + 'r list" where
  "unroll_load bulk_cache row_vector off [] = Inr bulk_cache"
| "unroll_load bulk_cache row_vector off (idx # indices) =
     (if idx < length bulk_cache \<and> size_t_add off idx < length row_vector
      then unroll_load (bulk_cache[idx := row_vector ! size_t_add off idx]) row_vector off indices
      else Inl OutOfBounds)"

fun unroll_store :: "'r list \<Rightarrow> 'r list \<Rightarrow> nat \<Rightarrow> nat list \<Rightarrow> error + 'r list" where
  "unroll_store row_vector bulk_cache off [] = Inr row_vector"
| "unroll_store row_vector bulk_cache off (idx # indices) =
     (if idx < length bulk_cache \<and> size_t_add off idx < length row_vector
      then unroll_store (row_vector[size_t_add off idx := bulk_cache ! idx]) bulk_cache off indices
      else Inl OutOfBounds)"

text \<open>
  The loops of the last lane, \<open>for (size_t i = 0; i < end_index; ++i)\<close>, in the constructor
  and in the destructor.
\<close>

function load_loop :: "nat \<Rightarrow> nat \<Rightarrow> 'r list \<Rightarrow> 'r list \<Rightarrow> nat \<Rightarrow> error + 'r list" where
  "load_loop i end_index cache row_vector off =
     (if i < end_index
      then (if i < length cache \<and> size_t_add i off < length row_vector
            then load_loop (Suc i) end_index (cache[i := row_vector ! size_t_add i off])
                   row_vector off
            else Inl OutOfBounds)
      else Inr cache)"
  by pat_completeness auto
termination
  by (relation "measure (\<lambda>(i, end_index, cache, row_vector, off). end_index - i)") auto

function store_loop :: "nat \<Rightarrow> nat \<Rightarrow> 'r list \<Rightarrow> 'r list \<Rightarrow> nat \<Rightarrow> error + 'r list" where
  "store_loop i end_index row_vector cache off =
     (if i < end_index
      then (if i < length cache \<and> size_t_add i off < length row_vector
            then store_loop (Suc i) end_index (row_vector[size_t_add i off := cache ! i])
                   cache off
            else Inl OutOfBounds)
      else Inr row_vector)"
  by pat_completeness auto
termination
  by (relation "measure (\<lambda>(i, end_index, row_vector, cache, off). end_index - i)") auto

declare load_loop.simps [simp del] store_loop.simps [simp del]

text \<open>
  The constructor of \<open>_lane<dp_block_t, lane_width, is_last_lane>::type\<close>. The cache is
  default-initialised: \<open>lane_width\<close> default-constructed cells \<open>dflt\<close>. \<open>_row_offset\<close> is
  the argument plus one.
\<close>

definition lane_construct ::
  "bool \<Rightarrow> nat \<Rightarrow> 'r \<Rightarrow> ('r, 'c) dp_block \<Rightarrow> nat \<Rightarrow> error + ('r, 'c) lane" where
  "lane_construct is_last_lane lane_width dflt blk row_offset_arg =
     (let off = size_t_add row_offset_arg 1;
          cache = replicate lane_width dflt;
          loaded =
            (if \<not> is_last_lane
             then unroll_load cache (row blk) off [0..<lane_width]
             else (let end_index = size_t_sub (length (row blk)) off
                   in load_loop 0 end_index cache (row blk) off))
      in case loaded of
           Inl e \<Rightarrow> Inl e
         | Inr c \<Rightarrow> Inr \<lparr>dp_block = blk, cached_row = c, row_offset = off\<rparr>)"

text \<open>The destructor; it returns the block the lane held, with the row written back.\<close>

definition lane_destruct :: "bool \<Rightarrow> nat \<Rightarrow> ('r, 'c) lane \<Rightarrow> error + ('r, 'c) dp_block" where
  "lane_destruct is_last_lane lane_width ln =
     (let blk = dp_block ln;
          stored =
            (if \<not> is_last_lane
             then unroll_store (row blk) (cached_row ln) (row_offset ln) [0..<lane_width]
             else (let end_index = size_t_sub (length (row blk)) (row_offset ln)
                   in store_loop 0 end_index (row blk) (cached_row ln) (row_offset ln)))
      in case stored of
           Inl e \<Rightarrow> Inl e
         | Inr r \<Rightarrow> Inr (blk\<lparr>row := r\<rparr>))"

section \<open>The driver on empty input\<close>

text \<open>
  \<open>intermediate_dp_vector::initialise\<close>: the vector is resized to the length of the
  sequence plus one, the strategy is applied to every cell in order, and the sequence is
  returned. The strategy is a function object that counts its calls; it is modelled as a
  function of the index of the cell it is called on.
\<close>

definition initialise :: "'a list \<Rightarrow> (nat \<Rightarrow> 'cell) \<Rightarrow> 'cell list \<times> 'a list" where
  "initialise sequence init_strategy =
     (let sequence_size = length sequence
      in (map init_strategy [0..<sequence_size + 1], sequence))"

text \<open>
  \<open>initialise_row_vector\<close> and \<open>initialise_column_vector\<close> of \<open>affine_dp_algorithm\<close>
  initialise a vector with \<open>affine_initialisation_strategy{_gap_model}\<close>. The class is not
  among the sources: the way a strategy is made from the gap model is the parameter
  \<open>strategy\<close>.
\<close>

definition initialise_row_vector ::
  "('g \<Rightarrow> nat \<Rightarrow> 'cell) \<Rightarrow> 'g \<Rightarrow> 'a list \<Rightarrow> 'cell list \<times> 'a list" where
  "initialise_row_vector strategy gm sequence = initialise sequence (strategy gm)"

definition initialise_column_vector ::
  "('g \<Rightarrow> nat \<Rightarrow> 'cell) \<Rightarrow> 'g \<Rightarrow> 'a list \<Rightarrow> 'cell list \<times> 'a list" where
  "initialise_column_vector strategy gm sequence = initialise sequence (strategy gm)"

text \<open>
  Modelled from the spec: \<open>affine_initialisation_strategy\<close>
  (\<open>affine/affine_initialisation_strategy.hpp\<close> is not among the sources). Section 4.B:
  for affine global alignment the strategy seeds cell \<open>i\<close> with
  \<open>(i * gap_extend + gap_open, sentinel)\<close>.
\<close>

definition affine_initialisation_strategy :: "int \<Rightarrow> int gap_model \<Rightarrow> nat \<Rightarrow> int \<times> int" where
  "affine_initialisation_strategy sentinel gm i =
     (int i * gap_extension_score gm + gap_open_score gm, sentinel)"

text \<open>
  Modelled from the spec: the driver \<open>run\<close> of the algorithm template and the global
  tracker (\<open>dp_algorithm_template_standard.hpp\<close> and the tracker headers are not among the
  sources). Section 4.I: both vectors are initialised; for each column block (a contiguous
  slice of \<open>seq1\<close> of height \<open>H_col\<close>) and for each row block (a slice of \<open>seq2\<close> of width
  \<open>W_row\<close>) the block is computed; the global tracker returns the value of the bottom-right
  cell. The computation of one block is the parameter \<open>compute_block\<close>; it may fail (an
  invalid symbol, section 7).
\<close>

function slices :: "nat \<Rightarrow> 'a list \<Rightarrow> 'a list list" where
  "slices n xs = (if n = 0 \<or> xs = [] then [] else take n xs # slices n (drop n xs))"
  by pat_completeness auto
termination
  by (relation "measure (\<lambda>(n, xs). length xs)") auto

declare slices.simps [simp del]

fun for_each_block :: "('blk \<Rightarrow> 'st \<Rightarrow> 'e + 'st) \<Rightarrow> 'blk list \<Rightarrow> 'st \<Rightarrow> 'e + 'st" where
  "for_each_block f [] st = Inr st"
| "for_each_block f (b # bs) st =
     (case f b st of Inl e \<Rightarrow> Inl e | Inr st' \<Rightarrow> for_each_block f bs st')"

record dp_result =
  score :: int

text \<open>
  Modelled from the spec: the cell that the global tracker reads. Section 6: the final
  score is the value of the bottom-right cell of the \<open>(N+1) \<times> (M+1)\<close> matrix, \<open>N\<close> and
  \<open>M\<close> the lengths of \<open>seq1\<close> and \<open>seq2\<close>. The column vector holds the cells of rows
  \<open>0..N\<close> of the matrix column that the sweep has reached, the row vector the cells of
  columns \<open>0..M\<close> of the matrix row that it has reached (4.H). Where \<open>seq1\<close> is not
  empty, the column vector stands at matrix column \<open>M\<close> after the row blocks, none of
  them when \<open>seq2\<close> is empty, and its last cell is the bottom-right cell. Where \<open>seq1\<close>
  is empty there is no column block; the matrix has the one row 0, which the row vector
  holds, and the last cell of the row vector is the bottom-right cell.
\<close>

definition bottom_right_cell :: "'a list \<Rightarrow> 'cell list \<Rightarrow> 'cell list \<Rightarrow> 'cell" where
  "bottom_right_cell sequence1 dp_column dp_row =
     (if sequence1 = [] then last dp_row else last dp_column)"

definition run ::
  "nat \<Rightarrow> nat \<Rightarrow>
   ('a list \<Rightarrow> 'b list \<Rightarrow> (int \<times> int) list \<times> (int \<times> int) list \<Rightarrow>
      'e + (int \<times> int) list \<times> (int \<times> int) list) \<Rightarrow>
   ('g \<Rightarrow> nat \<Rightarrow> int \<times> int) \<Rightarrow> 'g \<Rightarrow> 'a list \<Rightarrow> 'b list \<Rightarrow> 'e + dp_result" where
  "run H_col W_row compute_block strategy gm seq1 seq2 =
     (let (dp_column, sequence1) = initialise_column_vector strategy gm seq1;
          (dp_row, sequence2) = initialise_row_vector strategy gm seq2
      in case for_each_block
                (\<lambda>column_slice. for_each_block (compute_block column_slice)
                                  (slices W_row sequence2))
                (slices H_col sequence1) (dp_column, dp_row) of
           Inl e \<Rightarrow> Inl e
         | Inr (dp_column', dp_row') \<Rightarrow>
             Inr \<lparr>score = fst (bottom_right_cell sequence1 dp_column' dp_row')\<rparr>)"

text \<open>
  \<open>interface_one_to_one_single::compute\<close>: it runs the algorithm on freshly constructed
  vectors and returns \<open>result.score()\<close>.
\<close>

definition compute ::
  "nat \<Rightarrow> nat \<Rightarrow>
   ('a list \<Rightarrow> 'b list \<Rightarrow> (int \<times> int) list \<times> (int \<times> int) list \<Rightarrow>
      'e + (int \<times> int) list \<times> (int \<times> int) list) \<Rightarrow>
   ('g \<Rightarrow> nat \<Rightarrow> int \<times> int) \<Rightarrow> 'g \<Rightarrow> 'a list \<Rightarrow> 'b list \<Rightarrow> 'e + int" where
  "compute H_col W_row compute_block strategy gm sequence1 sequence2 =
     (case run H_col W_row compute_block strategy gm sequence1 sequence2 of
        Inl e \<Rightarrow> Inl e
      | Inr result \<Rightarrow> Inr (score result))"

section \<open>Notions used in the statements\<close>

text \<open>
  One lane of one component through the rebase: in the narrow type with saturation, as
  \<open>reset\<close> and \<open>real_score\<close> compute it, and in the wide type, as \<open>expected_score\<close> is
  computed. They differ when the comparison of the check fails.
\<close>

definition narrow_rebase :: "scalar_score_t \<Rightarrow> scalar_score_t \<Rightarrow> scalar_score_t \<Rightarrow> scalar_score_t" where
  "narrow_rebase a d z = add_sat (sub_sat a d) z"

definition wide_rebase :: "scalar_score_t \<Rightarrow> scalar_score_t \<Rightarrow> scalar_score_t \<Rightarrow> wide_scalar_score_t" where
  "wide_rebase a d z = scast a - scast d + scast z"

definition rebase_differs :: "scalar_score_t \<Rightarrow> scalar_score_t \<Rightarrow> scalar_score_t \<Rightarrow> bool" where
  "rebase_differs a d z \<longleftrightarrow> sint (wide_rebase a d z) \<noteq> sint (narrow_rebase a d z)"

text \<open>
  Neither the saturating subtraction of \<open>d\<close> from \<open>a\<close> nor the saturating addition of
  \<open>z\<close> to the difference leaves the range of \<open>int8_t\<close>.
\<close>

definition no_saturation :: "scalar_score_t \<Rightarrow> scalar_score_t \<Rightarrow> scalar_score_t \<Rightarrow> bool" where
  "no_saturation a d z \<longleftrightarrow>
     - 128 \<le> sint a - sint d \<and> sint a - sint d \<le> 127 \<and>
     - 128 \<le> sint a - sint d + sint z \<and> sint a - sint d + sint z \<le> 127"

text \<open>Every score of the vector has \<open>L\<close> lanes (\<open>score_t::size\<close>).\<close>

definition lanes_ok :: "nat \<Rightarrow> dp_vector_saturated \<Rightarrow> bool" where
  "lanes_ok L v \<longleftrightarrow>
     length (saturated_zero_offset v) = L \<and>
     list_all (\<lambda>c. length (fst c) = L \<and> length (snd c) = L) (base v)"

text \<open>
  The diagnostic \<open>dg\<close> names a cell of \<open>cs\<close> (numbered from \<open>i0\<close>) and a lane, prints that
  cell, the offset and the zero offset of that lane, and its real and expected score are
  the narrow and the wide rebase of a checked component of that cell (\<open>get<0>\<close>, or
  \<open>get<1>\<close> for a cell index above 0), which differ.
\<close>

definition diagnoses_cells ::
  "affine_cell list \<Rightarrow> score_t \<Rightarrow> score_t \<Rightarrow> nat \<Rightarrow> diagnostic \<Rightarrow> bool" where
  "diagnoses_cells cs new_offset zero i0 dg \<longleftrightarrow>
     i0 \<le> diag_i dg \<and> diag_i dg - i0 < length cs \<and> diag_k dg < length new_offset \<and>
     (let c = cs ! (diag_i dg - i0); k = diag_k dg; d = new_offset ! k; z = zero ! k
      in diag_cell dg = (fst c ! k, snd c ! k) \<and> diag_offset dg = d \<and> diag_zero_offset dg = z \<and>
         sint (diag_expected_score dg) \<noteq> sint (diag_real_score dg) \<and>
         (diag_real_score dg = narrow_rebase (fst c ! k) d z \<and>
          diag_expected_score dg = wide_rebase (fst c ! k) d z
          \<or> 0 < diag_i dg \<and>
          diag_real_score dg = narrow_rebase (snd c ! k) d z \<and>
          diag_expected_score dg = wide_rebase (snd c ! k) d z))"

text \<open>
  The window of a lane constructed with the argument \<open>row_offset\<close> over a row of \<open>n\<close>
  cells lies within the row and the cache: \<open>W\<close> cells after index \<open>row_offset\<close> for a
  lane that is not the last one, all the cells after index \<open>row_offset\<close>, at most \<open>W\<close>,
  for the last one.
\<close>

definition lane_fits :: "bool \<Rightarrow> nat \<Rightarrow> nat \<Rightarrow> nat \<Rightarrow> bool" where
  "lane_fits is_last_lane W n row_offset_arg \<longleftrightarrow>
     n < 2 ^ 64 \<and>
     (if is_last_lane then row_offset_arg + 1 \<le> n \<and> n - (row_offset_arg + 1) \<le> W
      else row_offset_arg + 1 + W \<le> n)"

text \<open>Concrete inputs: vectors with one lane, a block with a row of ten cells.\<close>

definition example_column :: dp_vector_saturated where
  "example_column = \<lparr>base = [([100], [- 100])], offset = [0], saturated_zero_offset = [0]\<rparr>"

definition example_row :: dp_vector_saturated where
  "example_row = \<lparr>base = [([10], [0]), ([20], [0]), ([30], [- 120])], offset = [5],
                   saturated_zero_offset = [0]\<rparr>"

definition example_block :: "(nat, nat) dp_block" where
  "example_block = \<lparr>row = [0, 1, 2, 3, 4, 5, 6, 7, 8, 9], column = [7, 7]\<rparr>"

definition failing_block ::
  "string \<Rightarrow> string \<Rightarrow> (int \<times> int) list \<times> (int \<times> int) list \<Rightarrow>
   unit + (int \<times> int) list \<times> (int \<times> int) list" where
  "failing_block column_slice row_slice st = Inl ()"

section \<open>Properties of the score lanes\<close>

lemma sint8_range: "- 128 \<le> sint (a :: 8 word) \<and> sint a \<le> 127"
  using sint_ge [of a] sint_lt [of a] by simp

lemma sint_saturate: "sint (saturate x) = max (- 128) (min 127 x)"
  unfolding saturate_def by (simp add: sint_sbintrunc' signed_take_bit_int_eq_self)

lemma saturate_in_range: "- 128 \<le> x \<Longrightarrow> x \<le> 127 \<Longrightarrow> sint (saturate x) = x"
  by (simp add: sint_saturate)

lemma sint_add_sat: "sint (add_sat a b) = max (- 128) (min 127 (sint a + sint b))"
  by (simp add: add_sat_def sint_saturate)

lemma sint_sub_sat: "sint (sub_sat a b) = max (- 128) (min 127 (sint a - sint b))"
  by (simp add: sub_sat_def sint_saturate)

lemma sint_max_s: "sint (max_s a b) = max (sint a) (sint b)"
  by (simp add: max_s_def)

lemma map_sint_simd_add:
  "map sint (simd_add xs ys) =
     map2 (\<lambda>x y. max (- 128) (min 127 (x + y))) (map sint xs) (map sint ys)"
  unfolding simd_add_def
  by (induction xs ys rule: list_induct2') (simp_all add: sint_add_sat)

lemma map_sint_simd_max:
  "map sint (simd_max xs ys) = map2 max (map sint xs) (map sint ys)"
  unfolding simd_max_def
  by (induction xs ys rule: list_induct2') (simp_all add: sint_max_s)

text \<open>
  With penalties (both gap scores at most 0) whose sum fits the narrow type, adding the
  sum \<open>gap_open_score + gap_extension_score\<close> at once, as \<open>compute_cell\<close> does, is the same
  as adding the two scores one after the other.
\<close>

lemma open_delta_grouping:
  assumes "sint go \<le> 0" and "sint ge \<le> 0" and "- 128 \<le> sint go + sint ge"
  shows "add_sat m (add_sat go ge) = add_sat (add_sat m go) ge"
proof -
  have "sint (add_sat m (add_sat go ge)) = sint (add_sat (add_sat m go) ge)"
    using assms sint8_range [of m] sint8_range [of go] sint8_range [of ge]
    by (auto simp: sint_add_sat max_def min_def)
  then show ?thesis by (rule signed_word_eqI)
qed

section \<open>The affine recurrence\<close>

text \<open>
  Claim C2. One call of \<open>compute_cell\<close> on lanes with saturating arithmetic, with cache
  \<open>(diag_in, gap_cache)\<close>, column cell \<open>(m_prev, gap_prev)\<close> and substitution score \<open>s\<close>:
  the new best score of the cell is \<open>m_new = max (max (diag_in + s) gap_cache) gap_prev\<close>;
  the new gap score of the cell is \<open>max (gap_prev + ge) (m_new + (go + ge))\<close>; the new gap
  score of the cache is \<open>max (gap_cache + ge) (m_new + (go + ge))\<close>; the new diagonal of
  the cache is \<open>m_prev\<close>. Every \<open>+\<close> is the saturating addition of the narrow type and
  \<open>max\<close> the signed maximum; the sum \<open>go + ge\<close> is formed first, as in the source. Read
  as integers, lane by lane, \<open>m_new\<close> is the maximum of the three candidates, the first
  being the sum \<open>diag_in + s\<close> clamped to the range of \<open>int8_t\<close>.
\<close>

theorem compute_cell_affine_recurrence:
  fixes gm :: "score_t gap_model" and score_fn :: "'a \<Rightarrow> 'b \<Rightarrow> score_t"
    and seq1_sym :: 'a and seq2_sym :: 'b and diag_in gap_cache gap_prev :: score_t
  defines "go \<equiv> gap_open_score gm" and "ge \<equiv> gap_extension_score gm"
    and "s \<equiv> score_fn seq1_sym seq2_sym"
  defines "m_new \<equiv> simd_max (simd_max (simd_add diag_in s) gap_cache) gap_prev"
  shows "compute_cell simd_add simd_max score_fn gm (diag_in, gap_cache) (m_prev, gap_prev)
           seq1_sym seq2_sym =
           ((m_prev, simd_max (simd_add gap_cache ge) (simd_add m_new (simd_add go ge))),
            (m_new, simd_max (simd_add gap_prev ge) (simd_add m_new (simd_add go ge)))) \<and>
         map sint m_new =
           map2 max (map2 max (map2 (\<lambda>x y. max (- 128) (min 127 (x + y)))
                                 (map sint diag_in) (map sint s))
                              (map sint gap_cache))
                    (map sint gap_prev)"
  by (simp add: compute_cell_def Let_def go_def ge_def s_def m_new_def
      map_sint_simd_add map_sint_simd_max)

section \<open>The rebase preserves logical scores\<close>

lemma sint_wide_rebase: "sint (wide_rebase a d z) = sint a - sint d + sint z"
proof -
  let ?x = "sint a - sint d + sint z"
  have "wide_rebase a d z = word_of_int (sint a) - word_of_int (sint d) + word_of_int (sint z)"
    by (simp only: wide_rebase_def scast_eq)
  also have "\<dots> = word_of_int ?x"
    by (simp only: wi_hom_syms)
  finally have "sint (wide_rebase a d z) = signed_take_bit (LENGTH(32) - 1) ?x"
    by (simp only: sint_sbintrunc')
  moreover have "- (2 ^ (LENGTH(32) - 1)) \<le> ?x" "?x < 2 ^ (LENGTH(32) - 1)"
    using sint8_range [of a] sint8_range [of d] sint8_range [of z] by simp_all
  ultimately show ?thesis
    by (simp only: signed_take_bit_int_eq_self)
qed

lemma sint_narrow_rebase:
  "sint (narrow_rebase a d z) =
     max (- 128) (min 127 (max (- 128) (min 127 (sint a - sint d)) + sint z))"
  by (simp add: narrow_rebase_def sint_add_sat sint_sub_sat)

text \<open>
  The narrow and the wide rebase of a lane agree exactly when neither narrow operation
  saturates: a saturation in the subtraction is never undone by the addition.
\<close>

lemma rebase_differs_iff: "rebase_differs a d z \<longleftrightarrow> \<not> no_saturation a d z"
  using sint8_range [of a] sint8_range [of d] sint8_range [of z]
  unfolding rebase_differs_def no_saturation_def sint_wide_rebase sint_narrow_rebase
  by (auto simp: max_def min_def)

lemma narrow_rebase_exact:
  assumes "no_saturation a d z"
  shows "(scast (narrow_rebase a d z) :: 32 word) = wide_rebase a d z"
proof -
  from assms have "\<not> rebase_differs a d z"
    by (simp add: rebase_differs_iff)
  then have "sint (narrow_rebase a d z) = sint (wide_rebase a d z)"
    by (simp add: rebase_differs_def)
  then have "(scast (narrow_rebase a d z) :: 32 word) = word_of_int (sint (wide_rebase a d z))"
    by (simp only: scast_eq)
  then show ?thesis by simp
qed

lemma base_update_offset_impl:
  "base (update_offset_impl v new_offset) =
     map (reset_cell new_offset (saturated_zero_offset v)) (base v)"
  by (simp add: update_offset_impl_def dp_vector_update_offset_def reset_def)

lemma offset_update_offset_impl:
  "offset (update_offset_impl v new_offset) =
     wide_sub (wide_add (offset v) (widen new_offset)) (widen (saturated_zero_offset v))"
  by (simp add: update_offset_impl_def dp_vector_update_offset_def reset_def)

lemma fst_reset_cell_nth:
  "k < length (fst c) \<Longrightarrow> k < length d \<Longrightarrow> k < length z \<Longrightarrow>
   fst (reset_cell d z c) ! k = narrow_rebase (fst c ! k) (d ! k) (z ! k)"
  by (cases c) (simp add: reset_cell_def simd_add_def simd_sub_def narrow_rebase_def)

lemma snd_reset_cell_nth:
  "k < length (snd c) \<Longrightarrow> k < length d \<Longrightarrow> k < length z \<Longrightarrow>
   snd (reset_cell d z c) ! k = narrow_rebase (snd c ! k) (d ! k) (z ! k)"
  by (cases c) (simp add: reset_cell_def simd_add_def simd_sub_def narrow_rebase_def)

text \<open>
  Claim C1. For a DP vector \<open>v\<close>, a cell index \<open>i\<close> and a lane \<open>k\<close>: if the two narrow
  operations of the rebase do not saturate on the best score of cell \<open>i\<close> in lane \<open>k\<close>,
  then after \<open>update_offset_impl\<close> the stored best score plus the stored offset, computed
  in the wide type, is what it was before. The pivot score \<open>new_offset\<close> is arbitrary.
\<close>

theorem rebase_preserves_logical_score:
  assumes "i < length (base v)"
    and "k < length (fst (base v ! i))" and "k < length new_offset"
    and "k < length (saturated_zero_offset v)" and "k < length (offset v)"
    and "no_saturation (fst (base v ! i) ! k) (new_offset ! k) (saturated_zero_offset v ! k)"
  shows "scast (fst (base (update_offset_impl v new_offset) ! i) ! k)
           + offset (update_offset_impl v new_offset) ! k
         = (scast (fst (base v ! i) ! k) + offset v ! k :: 32 word)"
proof -
  have "fst (base (update_offset_impl v new_offset) ! i) ! k
          = narrow_rebase (fst (base v ! i) ! k) (new_offset ! k) (saturated_zero_offset v ! k)"
    using assms by (simp add: base_update_offset_impl fst_reset_cell_nth)
  moreover have "offset (update_offset_impl v new_offset) ! k
          = offset v ! k + scast (new_offset ! k) - scast (saturated_zero_offset v ! k)"
    using assms by (simp add: offset_update_offset_impl wide_sub_def wide_add_def widen_def)
  ultimately show ?thesis
    using narrow_rebase_exact [OF assms(6)] by (simp add: wide_rebase_def)
qed

theorem rebase_preserves_logical_score_witness:
  "no_saturation (fst (base example_row ! 2) ! 0) ([20] ! 0)
     (saturated_zero_offset example_row ! 0) \<and>
   scast (fst (base (update_offset_impl example_row [20]) ! 2) ! 0)
     + offset (update_offset_impl example_row [20]) ! 0
   = (scast (fst (base example_row ! 2) ! 0) + offset example_row ! 0 :: 32 word)"
proof -
  have ns: "no_saturation (fst (base example_row ! 2) ! 0) ([20] ! 0)
     (saturated_zero_offset example_row ! 0)"
    by (simp add: example_row_def no_saturation_def)
  have "2 < length (base example_row)" "0 < length (fst (base example_row ! 2))"
    "0 < length [20 :: 8 word]" "0 < length (saturated_zero_offset example_row)"
    "0 < length (offset example_row)"
    by (simp_all add: example_row_def)
  from rebase_preserves_logical_score [OF this ns] ns show ?thesis by simp
qed

section \<open>The saturation check\<close>

lemma first_mismatch_None:
  "length es = length rs \<Longrightarrow>
   (first_mismatch k0 es rs = None) = (\<forall>j<length es. sint (es ! j) = sint (rs ! j))"
proof (induction k0 es rs rule: first_mismatch.induct)
  case (1 k e es r rs)
  then show ?case by (auto simp: nth_Cons split: nat.splits)
qed auto

lemma first_mismatch_Some:
  "first_mismatch k0 es rs = Some k \<Longrightarrow>
   k0 \<le> k \<and> k - k0 < length es \<and> k - k0 < length rs \<and>
   sint (es ! (k - k0)) \<noteq> sint (rs ! (k - k0))"
proof (induction k0 es rs rule: first_mismatch.induct)
  case (1 k' e es r rs)
  show ?case
  proof (cases "sint e \<noteq> sint r")
    case True
    with "1.prems" show ?thesis by simp
  next
    case False
    with "1.prems" have "first_mismatch (Suc k') es rs = Some k" by simp
    with "1.IH" False have "Suc k' \<le> k \<and> k - Suc k' < length es \<and> k - Suc k' < length rs \<and>
      sint (es ! (k - Suc k')) \<noteq> sint (rs ! (k - Suc k'))" by simp
    moreover from this have "k - k' = Suc (k - Suc k')" by arith
    ultimately show ?thesis by simp
  qed
qed auto

lemma expected_nth:
  "k < length x \<Longrightarrow> k < length d \<Longrightarrow> k < length z \<Longrightarrow>
   wide_add (wide_sub (widen x) (widen d)) (widen z) ! k = wide_rebase (x ! k) (d ! k) (z ! k)"
  by (simp add: wide_add_def wide_sub_def widen_def wide_rebase_def)

lemma real_nth:
  "k < length x \<Longrightarrow> k < length d \<Longrightarrow> k < length z \<Longrightarrow>
   simd_add (simd_sub x d) z ! k = narrow_rebase (x ! k) (d ! k) (z ! k)"
  by (simp add: simd_add_def simd_sub_def narrow_rebase_def)

lemma length_expected:
  "length (wide_add (wide_sub (widen x) (widen d)) (widen z)) = min (min (length x) (length d)) (length z)"
  by (simp add: wide_add_def wide_sub_def widen_def)

lemma length_real:
  "length (simd_add (simd_sub x d) z) = min (min (length x) (length d)) (length z)"
  by (simp add: simd_add_def simd_sub_def)

lemma check_component_None:
  assumes "length x = L" "length d = L" "length z = L"
  shows "(check_component i x c d z = None) = (\<forall>k<L. \<not> rebase_differs (x ! k) (d ! k) (z ! k))"
proof -
  let ?e = "wide_add (wide_sub (widen x) (widen d)) (widen z)"
  let ?r = "simd_add (simd_sub x d) z"
  have len: "length ?e = L" "length ?r = L"
    using assms by (simp_all add: length_expected length_real)
  have "(check_component i x c d z = None) = (first_mismatch 0 ?e ?r = None)"
    by (simp add: check_component_def Let_def split: option.splits)
  also have "\<dots> = (\<forall>k<L. sint (?e ! k) = sint (?r ! k))"
    using first_mismatch_None [of ?e ?r 0] len by simp
  also have "\<dots> = (\<forall>k<L. \<not> rebase_differs (x ! k) (d ! k) (z ! k))"
    using assms by (simp add: expected_nth real_nth rebase_differs_def)
  finally show ?thesis .
qed

lemma check_component_Some:
  assumes "length x = L" "length d = L" "length z = L"
    and "check_component i x c d z = Some dg"
  shows "diag_i dg = i \<and> diag_k dg < L \<and>
         diag_real_score dg = narrow_rebase (x ! diag_k dg) (d ! diag_k dg) (z ! diag_k dg) \<and>
         diag_expected_score dg = wide_rebase (x ! diag_k dg) (d ! diag_k dg) (z ! diag_k dg) \<and>
         diag_cell dg = (fst c ! diag_k dg, snd c ! diag_k dg) \<and>
         diag_offset dg = d ! diag_k dg \<and> diag_zero_offset dg = z ! diag_k dg \<and>
         sint (diag_expected_score dg) \<noteq> sint (diag_real_score dg)"
proof -
  let ?e = "wide_add (wide_sub (widen x) (widen d)) (widen z)"
  let ?r = "simd_add (simd_sub x d) z"
  from assms(4) obtain k where fm: "first_mismatch 0 ?e ?r = Some k"
    and dg: "dg = \<lparr>diag_i = i, diag_k = k, diag_real_score = ?r ! k,
                   diag_expected_score = ?e ! k, diag_cell = (fst c ! k, snd c ! k),
                   diag_offset = d ! k, diag_zero_offset = z ! k\<rparr>"
    by (auto simp: check_component_def Let_def split: option.splits)
  from first_mismatch_Some [OF fm] have k: "k < L" and ne: "sint (?e ! k) \<noteq> sint (?r ! k)"
    using assms(1-3) by (simp_all add: length_expected)
  from k assms(1-3) have "?e ! k = wide_rebase (x ! k) (d ! k) (z ! k)"
    and "?r ! k = narrow_rebase (x ! k) (d ! k) (z ! k)"
    by (simp_all add: expected_nth real_nth)
  with k ne dg show ?thesis by simp
qed

lemma diagnoses_cells_Cons:
  "diagnoses_cells cs d z (Suc i0) dg \<Longrightarrow> diagnoses_cells (c # cs) d z i0 dg"
proof -
  assume a: "diagnoses_cells cs d z (Suc i0) dg"
  then have "Suc i0 \<le> diag_i dg" by (simp add: diagnoses_cells_def)
  then have "diag_i dg - i0 = Suc (diag_i dg - Suc i0)" by arith
  with a show ?thesis by (auto simp: diagnoses_cells_def Let_def)
qed

lemma check_cells_Some:
  assumes "list_all (\<lambda>c. length (fst c) = L \<and> length (snd c) = L) cs"
    and "length d = L" and "length z = L"
    and "check_cells i0 cs d z = Some dg"
  shows "diagnoses_cells cs d z i0 dg"
  using assms
proof (induction cs arbitrary: i0)
  case Nil
  then show ?case by simp
next
  case (Cons c cs)
  from Cons.prems have lc: "length (fst c) = L" "length (snd c) = L" by simp_all
  show ?case
  proof (cases "check_component i0 (fst c) c d z")
    case (Some dg')
    with Cons.prems have "dg' = dg" by simp
    with Some check_component_Some [OF lc(1) Cons.prems(2,3), of i0 c dg] Cons.prems(2)
    show ?thesis by (auto simp: diagnoses_cells_def Let_def)
  next
    case None
    note fst_None = this
    show ?thesis
    proof (cases "if 0 < i0 then check_component i0 (snd c) c d z else None")
      case (Some dg')
      with fst_None Cons.prems have eq: "dg' = dg" by simp
      from Some have pos: "0 < i0" and cc: "check_component i0 (snd c) c d z = Some dg'"
        by (simp_all split: if_splits)
      from check_component_Some [OF lc(2) Cons.prems(2,3) cc] eq pos Cons.prems(2)
      show ?thesis by (auto simp: diagnoses_cells_def Let_def)
    next
      case None
      with fst_None Cons.prems have "check_cells (Suc i0) cs d z = Some dg" by simp
      with Cons.IH Cons.prems have "diagnoses_cells cs d z (Suc i0) dg" by simp
      then show ?thesis by (rule diagnoses_cells_Cons)
    qed
  qed
qed

lemma check_cells_fires:
  assumes "list_all (\<lambda>c. length (fst c) = L \<and> length (snd c) = L) cs"
    and "length d = L" and "length z = L"
    and "j < length cs" and "k < L"
    and "rebase_differs (fst (cs ! j) ! k) (d ! k) (z ! k)
         \<or> 0 < i0 + j \<and> rebase_differs (snd (cs ! j) ! k) (d ! k) (z ! k)"
  shows "check_cells i0 cs d z \<noteq> None"
  using assms
proof (induction cs arbitrary: i0 j)
  case Nil
  then show ?case by simp
next
  case (Cons c cs)
  from Cons.prems have lc: "length (fst c) = L" "length (snd c) = L" by simp_all
  show ?case
  proof (cases j)
    case 0
    with Cons.prems(6) consider
      (m) "rebase_differs (fst c ! k) (d ! k) (z ! k)"
      | (v) "0 < i0" "rebase_differs (snd c ! k) (d ! k) (z ! k)"
      by auto
    then show ?thesis
    proof cases
      case m
      with check_component_None [OF lc(1) Cons.prems(2,3), of i0 c] Cons.prems(5)
      have "check_component i0 (fst c) c d z \<noteq> None" by blast
      then show ?thesis by (auto split: option.splits)
    next
      case v
      with check_component_None [OF lc(2) Cons.prems(2,3), of i0 c] Cons.prems(5)
      have "check_component i0 (snd c) c d z \<noteq> None" by blast
      with v(1) show ?thesis by (auto split: option.splits)
    qed
  next
    case (Suc j')
    with Cons.prems have "check_cells (Suc i0) cs d z \<noteq> None"
      by (intro Cons.IH [of j']) simp_all
    then show ?thesis by (auto split: option.splits)
  qed
qed

text \<open>
  Where the check passes, no checked component saturates in the rebase: the best score of
  every cell, and the gap score of every cell but the first.
\<close>

lemma check_passes_no_saturation:
  assumes "lanes_ok L v" and "length new_offset = L"
    and "check_saturated_arithmetic v new_offset = None"
    and "i < length (base v)" and "k < L"
  shows "no_saturation (fst (base v ! i) ! k) (new_offset ! k) (saturated_zero_offset v ! k)"
    and "0 < i \<Longrightarrow>
         no_saturation (snd (base v ! i) ! k) (new_offset ! k) (saturated_zero_offset v ! k)"
proof -
  from assms(1) have cells: "list_all (\<lambda>c. length (fst c) = L \<and> length (snd c) = L) (base v)"
    and lz: "length (saturated_zero_offset v) = L"
    by (simp_all add: lanes_ok_def)
  from assms(3) have none: "check_cells 0 (base v) new_offset (saturated_zero_offset v) = None"
    by (simp add: check_saturated_arithmetic_def)
  from check_cells_fires [OF cells assms(2) lz assms(4,5), of 0] none
  have "\<not> rebase_differs (fst (base v ! i) ! k) (new_offset ! k) (saturated_zero_offset v ! k)"
    and "0 < i \<Longrightarrow>
      \<not> rebase_differs (snd (base v ! i) ! k) (new_offset ! k) (saturated_zero_offset v ! k)"
    by auto
  then show
    "no_saturation (fst (base v ! i) ! k) (new_offset ! k) (saturated_zero_offset v ! k)"
    and "0 < i \<Longrightarrow>
      no_saturation (snd (base v ! i) ! k) (new_offset ! k) (saturated_zero_offset v ! k)"
    by (simp_all add: rebase_differs_iff)
qed

text \<open>
  With assertions compiled in, a rebase that goes through preserves the logical best score
  of every cell in every lane.
\<close>

lemma checked_rebase_preserves_logical_score:
  assumes "lanes_ok L v" and "update_offset True is_row_cell v = Inr v'"
    and "i < length (base v)" and "k < L" and "k < length (offset v)"
  shows "scast (fst (base v' ! i) ! k) + offset v' ! k
         = (scast (fst (base v ! i) ! k) + offset v ! k :: 32 word)"
proof -
  let ?d = "fst (base v ! of_bool is_row_cell)"
  let ?z = "saturated_zero_offset v"
  from assms(2) have pos: "of_bool is_row_cell < length (base v)"
    and chk: "check_saturated_arithmetic v ?d = None"
    and v': "v' = update_offset_impl v ?d"
    by (auto simp: update_offset_def Let_def split: if_splits option.splits)
  from assms(1) have cells: "list_all (\<lambda>c. length (fst c) = L \<and> length (snd c) = L) (base v)"
    and lz: "length ?z = L"
    by (simp_all add: lanes_ok_def)
  from cells pos assms(3) have ld: "length ?d = L" and lm: "length (fst (base v ! i)) = L"
    by (simp_all add: list_all_length)
  from check_passes_no_saturation(1) [OF assms(1) ld chk assms(3,4)]
  have ns: "no_saturation (fst (base v ! i) ! k) (?d ! k) (?z ! k)" .
  have "fst (base v' ! i) ! k = narrow_rebase (fst (base v ! i) ! k) (?d ! k) (?z ! k)"
    using assms(3,4) ld lz lm by (simp add: v' base_update_offset_impl fst_reset_cell_nth)
  moreover have "offset v' ! k = offset v ! k + scast (?d ! k) - scast (?z ! k)"
    using assms(4,5) ld lz
    by (simp add: v' offset_update_offset_impl wide_sub_def wide_add_def widen_def)
  ultimately show ?thesis
    using narrow_rebase_exact [OF ns] by (simp add: wide_rebase_def)
qed

text \<open>
  Claim C3, amended. Let every score of the vector have \<open>L\<close> lanes and let the pivot cell
  exist. If for some cell index \<open>i\<close> and lane \<open>k\<close> the narrow saturating computation of
  \<open>cell - \<Delta> + ZERO\<close> differs from the wide one, for the best score of the cell or, when
  \<open>i > 0\<close>, for its gap score, then \<open>check_saturated_arithmetic\<close> produces a diagnostic
  and \<open>update_offset\<close> with assertions compiled in ends with the saturation-rebase error
  carrying it. The diagnostic names a cell index and a lane, the narrow and the wide result
  there (which differ), the cell, the offset and the zero offset of that lane.
\<close>

theorem saturation_rebase_error_fires:
  fixes v :: dp_vector_saturated and is_row_cell :: bool
  defines "new_offset \<equiv> fst (base v ! of_bool is_row_cell)"
  defines "zero \<equiv> saturated_zero_offset v"
  assumes "lanes_ok L v" and "of_bool is_row_cell < length (base v)"
    and "i < length (base v)" and "k < L"
    and "rebase_differs (fst (base v ! i) ! k) (new_offset ! k) (zero ! k)
         \<or> 0 < i \<and> rebase_differs (snd (base v ! i) ! k) (new_offset ! k) (zero ! k)"
  shows "\<exists>dg. check_saturated_arithmetic v new_offset = Some dg \<and>
              update_offset True is_row_cell v = Inl (SaturationRebase dg) \<and>
              diagnoses_cells (base v) new_offset zero 0 dg"
proof -
  from assms(3) have cells: "list_all (\<lambda>c. length (fst c) = L \<and> length (snd c) = L) (base v)"
    and lz: "length zero = L"
    by (simp_all add: lanes_ok_def zero_def)
  from cells assms(4) have ld: "length new_offset = L"
    by (simp add: list_all_length new_offset_def)
  from assms(7) have "check_cells 0 (base v) new_offset zero \<noteq> None"
    by (intro check_cells_fires [OF cells ld lz assms(5,6)]) simp
  then obtain dg where dg: "check_cells 0 (base v) new_offset zero = Some dg"
    by blast
  from check_cells_Some [OF cells ld lz dg]
  have "diagnoses_cells (base v) new_offset zero 0 dg" .
  moreover from dg have "check_saturated_arithmetic v new_offset = Some dg"
    by (simp add: check_saturated_arithmetic_def zero_def)
  moreover from this assms(4)
  have "update_offset True is_row_cell v = Inl (SaturationRebase dg)"
    by (simp add: update_offset_def Let_def new_offset_def)
  ultimately show ?thesis by blast
qed

theorem saturation_rebase_error_fires_witness:
  "lanes_ok 1 example_row \<and>
   rebase_differs (snd (base example_row ! 2) ! 0) (fst (base example_row ! 1) ! 0)
     (saturated_zero_offset example_row ! 0) \<and>
   (\<exists>dg. check_saturated_arithmetic example_row (fst (base example_row ! 1)) = Some dg \<and>
         update_offset True True example_row = Inl (SaturationRebase dg) \<and>
         diagnoses_cells (base example_row) (fst (base example_row ! 1))
           (saturated_zero_offset example_row) 0 dg)"
proof -
  have ok: "lanes_ok 1 example_row"
    by (simp add: lanes_ok_def example_row_def)
  have d: "rebase_differs (snd (base example_row ! 2) ! 0) (fst (base example_row ! 1) ! 0)
     (saturated_zero_offset example_row ! 0)"
    by (simp add: example_row_def rebase_differs_def wide_rebase_def narrow_rebase_def
        add_sat_def sub_sat_def saturate_def)
  from saturation_rebase_error_fires [of 1 example_row True 2 0] ok d
  show ?thesis by (simp add: example_row_def)
qed

text \<open>
  Claim C3 as stated also covers the gap score of the first cell. The check skips it
  (\<open>if (i > 0)\<close>): in \<open>example_column\<close> the gap score of cell 0 saturates in the rebase
  (\<open>-100 - 100\<close> yields \<open>-128\<close>, the wide type \<open>-200\<close>), the check passes and
  \<open>update_offset\<close> stores the saturated value.
\<close>

theorem gap_score_of_first_cell_unchecked:
  "rebase_differs (snd (base example_column ! 0) ! 0) (fst (base example_column ! 0) ! 0)
     (saturated_zero_offset example_column ! 0) \<and>
   check_saturated_arithmetic example_column (fst (base example_column ! 0)) = None \<and>
   update_offset True False example_column =
     Inr \<lparr>base = [([0], [- 128])], offset = [100], saturated_zero_offset = [0]\<rparr>"
  by (simp add: example_column_def rebase_differs_def wide_rebase_def narrow_rebase_def
      add_sat_def sub_sat_def saturate_def check_saturated_arithmetic_def check_component_def
      update_offset_def update_offset_impl_def dp_vector_update_offset_def reset_def
      reset_cell_def simd_add_def simd_sub_def wide_add_def wide_sub_def widen_def)

section \<open>The pivot of the rebase\<close>

text \<open>
  Claim C4, amended. Where the pivot cell exists and the assertion, if compiled in, holds,
  \<open>update_offset\<close> rebases by the best score of the cell at index 0 on a column vector and
  of the cell at index 1 on a row vector (the index is \<open>is_row_cell_v<value_type>\<close>).
\<close>

theorem update_offset_pivot:
  assumes "of_bool is_row_cell < length (base v)"
    and "debug \<longrightarrow> check_saturated_arithmetic v (fst (base v ! of_bool is_row_cell)) = None"
  shows "update_offset debug is_row_cell v =
           Inr (update_offset_impl v (fst (base v ! (if is_row_cell then 1 else 0))))"
  using assms by (cases is_row_cell) (simp_all add: update_offset_def Let_def)

theorem update_offset_pivot_witness:
  "(of_bool True :: nat) < length (base example_row) \<and>
   update_offset False True example_row =
     Inr (update_offset_impl example_row (fst (base example_row ! 1))) \<and>
   check_saturated_arithmetic example_column (fst (base example_column ! of_bool False)) = None \<and>
   update_offset True False example_column =
     Inr (update_offset_impl example_column (fst (base example_column ! 0)))"
proof -
  have row: "(of_bool True :: nat) < length (base example_row)"
    by (simp add: example_row_def)
  have col: "(of_bool False :: nat) < length (base example_column)"
    by (simp add: example_column_def)
  have chk: "check_saturated_arithmetic example_column
      (fst (base example_column ! of_bool False)) = None"
    by (simp add: example_column_def check_saturated_arithmetic_def check_component_def
        simd_add_def simd_sub_def wide_add_def wide_sub_def widen_def add_sat_def sub_sat_def
        saturate_def)
  from update_offset_pivot [OF row, of False] update_offset_pivot [OF col, of True] chk row
  show ?thesis by simp
qed

text \<open>
  Claim C4 as stated puts the pivot of a row vector at index 0 as well. On \<open>example_row\<close>
  the rebase uses the score 20 of cell 1; the score 10 of cell 0 gives another vector.
\<close>

theorem row_pivot_is_not_cell_0:
  "update_offset False True example_row \<noteq>
     Inr (update_offset_impl example_row (fst (base example_row ! 0)))"
  by (simp add: example_row_def update_offset_def update_offset_impl_def
      dp_vector_update_offset_def reset_def reset_cell_def simd_add_def simd_sub_def
      wide_add_def wide_sub_def widen_def add_sat_def sub_sat_def saturate_def)

section \<open>Lanes: loading and storing the row window\<close>

lemma replicate_numeral: "replicate (numeral k) x = x # replicate (pred_numeral k) x"
  by (simp add: numeral_eq_Suc)

lemma size_t_add_small: "a + b < 2 ^ 64 \<Longrightarrow> size_t_add a b = a + b"
  by (simp add: size_t_add_def)

lemma size_t_sub_small:
  assumes "b \<le> a" and "a < 2 ^ 64"
  shows "size_t_sub a b = a - b"
proof -
  from assms have "b mod 2 ^ 64 = b" by simp
  moreover from assms have "a + 2 ^ 64 - b = (a - b) + 2 ^ 64" by simp
  ultimately have "size_t_sub a b = ((a - b) + 2 ^ 64) mod 2 ^ 64"
    by (simp only: size_t_sub_def)
  also have "\<dots> = (a - b) mod 2 ^ 64" by (rule mod_add_self2)
  also from assms have "a - b < 2 ^ 64" by arith
  then have "(a - b) mod 2 ^ 64 = a - b" by (rule mod_less)
  finally show ?thesis .
qed

lemma unroll_load_Inr:
  assumes "\<forall>idx\<in>set indices. idx < length cache \<and> size_t_add off idx < length row_vector"
  shows "\<exists>c. unroll_load cache row_vector off indices = Inr c \<and> length c = length cache \<and>
             (\<forall>j<length cache. c ! j = (if j \<in> set indices then row_vector ! size_t_add off j
                                         else cache ! j))"
  using assms
proof (induction indices arbitrary: cache)
  case Nil
  then show ?case by simp
next
  case (Cons idx indices)
  let ?cache = "cache[idx := row_vector ! size_t_add off idx]"
  from Cons.prems
  have "\<forall>i\<in>set indices. i < length ?cache \<and> size_t_add off i < length row_vector"
    by simp
  from Cons.IH [OF this] obtain c where c: "unroll_load ?cache row_vector off indices = Inr c"
    "length c = length cache"
    "\<forall>j<length cache. c ! j = (if j \<in> set indices then row_vector ! size_t_add off j
                                 else ?cache ! j)"
    by auto
  from Cons.prems c(1) have "unroll_load cache row_vector off (idx # indices) = Inr c"
    by simp
  moreover from c(3) have "\<forall>j<length cache. c ! j =
      (if j \<in> set (idx # indices) then row_vector ! size_t_add off j else cache ! j)"
    by (auto simp: nth_list_update)
  ultimately show ?case using c(2) by blast
qed

lemma unroll_load_Inr_D:
  "unroll_load cache row_vector off indices = Inr c \<Longrightarrow>
   \<forall>idx\<in>set indices. idx < length cache \<and> size_t_add off idx < length row_vector"
proof (induction indices arbitrary: cache)
  case Nil
  then show ?case by simp
next
  case (Cons idx indices)
  from Cons.prems have ok: "idx < length cache \<and> size_t_add off idx < length row_vector"
    by (simp split: if_splits)
  with Cons.prems have
    "unroll_load (cache[idx := row_vector ! size_t_add off idx]) row_vector off indices = Inr c"
    by simp
  from Cons.IH [OF this] ok show ?case by simp
qed

lemma unroll_store_same:
  assumes "\<forall>idx\<in>set indices. idx < length cache \<and> size_t_add off idx < length row_vector \<and>
             cache ! idx = row_vector ! size_t_add off idx"
  shows "unroll_store row_vector cache off indices = Inr row_vector"
  using assms by (induction indices) simp_all

lemma unroll_store_frame:
  assumes "\<forall>idx\<in>set indices. idx < length cache \<and> off + idx < length row_vector"
    and "length row_vector < 2 ^ 64"
  shows "\<exists>r. unroll_store row_vector cache off indices = Inr r \<and> length r = length row_vector \<and>
             (\<forall>j<length row_vector.
                 j \<notin> (\<lambda>idx. off + idx) ` set indices \<longrightarrow> r ! j = row_vector ! j)"
  using assms
proof (induction indices arbitrary: row_vector)
  case Nil
  then show ?case by simp
next
  case (Cons idx indices)
  from Cons.prems have small: "size_t_add off idx = off + idx"
    by (intro size_t_add_small) simp
  let ?row = "row_vector[off + idx := cache ! idx]"
  from Cons.prems have "\<forall>i\<in>set indices. i < length cache \<and> off + i < length ?row"
    and "length ?row < 2 ^ 64" by simp_all
  from Cons.IH [OF this] obtain r where r: "unroll_store ?row cache off indices = Inr r"
    "length r = length row_vector"
    "\<forall>j<length row_vector. j \<notin> (\<lambda>idx. off + idx) ` set indices \<longrightarrow> r ! j = ?row ! j"
    by auto
  from Cons.prems r(1) small
  have "unroll_store row_vector cache off (idx # indices) = Inr r" by simp
  moreover from r(3) have "\<forall>j<length row_vector.
      j \<notin> (\<lambda>idx. off + idx) ` set (idx # indices) \<longrightarrow> r ! j = row_vector ! j"
    by (auto simp: nth_list_update)
  ultimately show ?case using r(2) by blast
qed

text \<open>Stores over a duplicate-free index list: the written positions carry the cache.\<close>

lemma unroll_store_written:
  assumes "\<forall>idx\<in>set indices. idx < length cache \<and> off + idx < length row_vector"
    and "length row_vector < 2 ^ 64" and "distinct indices"
  shows "\<exists>r. unroll_store row_vector cache off indices = Inr r \<and>
             (\<forall>idx\<in>set indices. r ! (off + idx) = cache ! idx)"
  using assms
proof (induction indices arbitrary: row_vector)
  case Nil
  then show ?case by simp
next
  case (Cons idx indices)
  from Cons.prems have small: "size_t_add off idx = off + idx"
    by (intro size_t_add_small) simp
  let ?row = "row_vector[off + idx := cache ! idx]"
  from Cons.prems have p: "\<forall>i\<in>set indices. i < length cache \<and> off + i < length ?row"
    "length ?row < 2 ^ 64" "distinct indices" by simp_all
  from Cons.IH [OF this] obtain r where r: "unroll_store ?row cache off indices = Inr r"
    "\<forall>i\<in>set indices. r ! (off + i) = cache ! i"
    by auto
  from unroll_store_frame [OF p(1,2)] r(1)
  have fr: "\<forall>j<length ?row. j \<notin> (\<lambda>i. off + i) ` set indices \<longrightarrow> r ! j = ?row ! j"
    by auto
  from Cons.prems have "off + idx \<notin> (\<lambda>i. off + i) ` set indices" by auto
  with fr Cons.prems have "r ! (off + idx) = cache ! idx" by simp
  moreover from Cons.prems r(1) small
  have "unroll_store row_vector cache off (idx # indices) = Inr r" by simp
  ultimately show ?case using r(2) by simp
qed


lemma load_loop_Inr:
  assumes "\<forall>j. i \<le> j \<and> j < end_index \<longrightarrow> j < length cache \<and> size_t_add j off < length row_vector"
  shows "\<exists>c. load_loop i end_index cache row_vector off = Inr c \<and> length c = length cache \<and>
             (\<forall>j<length cache. c ! j = (if i \<le> j \<and> j < end_index
                                         then row_vector ! size_t_add j off else cache ! j))"
  using assms
proof (induction i end_index cache row_vector off rule: load_loop.induct)
  case (1 i end_index cache row_vector off)
  show ?case
  proof (cases "i < end_index")
    case False
    then show ?thesis by (auto simp: load_loop.simps [of i])
  next
    case True
    let ?cache = "cache[i := row_vector ! size_t_add i off]"
    from True "1.prems" have ok: "i < length cache" "size_t_add i off < length row_vector"
      by simp_all
    from "1.prems" have "\<forall>j. Suc i \<le> j \<and> j < end_index \<longrightarrow>
        j < length ?cache \<and> size_t_add j off < length row_vector"
      by simp
    from "1.IH" [OF True _ this] ok
    obtain c where c: "load_loop (Suc i) end_index ?cache row_vector off = Inr c"
      "length c = length cache"
      "\<forall>j<length cache. c ! j = (if Suc i \<le> j \<and> j < end_index
                                   then row_vector ! size_t_add j off else ?cache ! j)"
      by auto
    from True ok c(1) have "load_loop i end_index cache row_vector off = Inr c"
      by (simp add: load_loop.simps [of i])
    moreover have "\<forall>j<length cache. c ! j =
        (if i \<le> j \<and> j < end_index then row_vector ! size_t_add j off else cache ! j)"
    proof (intro allI impI)
      fix j
      assume j: "j < length cache"
      consider "j = i" | "Suc i \<le> j" | "j < i" by arith
      then show "c ! j =
        (if i \<le> j \<and> j < end_index then row_vector ! size_t_add j off else cache ! j)"
        using c(3) j True by cases (simp_all add: nth_list_update)
    qed
    ultimately show ?thesis using c(2) by blast
  qed
qed

lemma load_loop_Inr_D:
  "load_loop i end_index cache row_vector off = Inr c \<Longrightarrow>
   \<forall>j. i \<le> j \<and> j < end_index \<longrightarrow> j < length cache \<and> size_t_add j off < length row_vector"
proof (induction i end_index cache row_vector off rule: load_loop.induct)
  case (1 i end_index cache row_vector off)
  show ?case
  proof (cases "i < end_index")
    case False
    then show ?thesis by simp
  next
    case True
    with "1.prems" have ok: "i < length cache \<and> size_t_add i off < length row_vector"
      by (simp add: load_loop.simps [of i] split: if_splits)
    with True "1.prems" have "load_loop (Suc i) end_index
        (cache[i := row_vector ! size_t_add i off]) row_vector off = Inr c"
      by (simp add: load_loop.simps [of i])
    from "1.IH" [OF True ok this]
    have rest: "\<forall>j. Suc i \<le> j \<and> j < end_index \<longrightarrow>
        j < length cache \<and> size_t_add j off < length row_vector"
      by simp
    show ?thesis
    proof (intro allI impI)
      fix j
      assume "i \<le> j \<and> j < end_index"
      then have "j = i \<or> Suc i \<le> j \<and> j < end_index" by arith
      with rest ok show "j < length cache \<and> size_t_add j off < length row_vector"
        by blast
    qed
  qed
qed

lemma store_loop_same:
  assumes "\<forall>j. i \<le> j \<and> j < end_index \<longrightarrow>
             j < length cache \<and> size_t_add j off < length row_vector \<and>
             cache ! j = row_vector ! size_t_add j off"
  shows "store_loop i end_index row_vector cache off = Inr row_vector"
  using assms
proof (induction "end_index - i" arbitrary: i)
  case 0
  then show ?case by (simp add: store_loop.simps)
next
  case (Suc n)
  then have lt: "i < end_index" and n: "n = end_index - Suc i" by simp_all
  from Suc.prems lt have ok: "i < length cache" "size_t_add i off < length row_vector"
    "cache ! i = row_vector ! size_t_add i off" by simp_all
  from Suc.prems have "\<forall>j. Suc i \<le> j \<and> j < end_index \<longrightarrow>
      j < length cache \<and> size_t_add j off < length row_vector \<and>
      cache ! j = row_vector ! size_t_add j off" by simp
  from Suc.hyps(1) [OF n this] lt ok show ?case
    by (simp add: store_loop.simps [of i])
qed

lemma store_loop_Inr:
  assumes "end_index \<le> length cache" and "off + end_index \<le> length row_vector"
    and "length row_vector < 2 ^ 64"
  shows "\<exists>r. store_loop i end_index row_vector cache off = Inr r \<and> length r = length row_vector \<and>
             (\<forall>j<length row_vector. r ! j = (if off + i \<le> j \<and> j < off + end_index
                                              then cache ! (j - off) else row_vector ! j))"
  using assms
proof (induction "end_index - i" arbitrary: i row_vector)
  case 0
  then show ?case by (auto simp: store_loop.simps [of i])
next
  case (Suc n)
  then have lt: "i < end_index" and n: "n = end_index - Suc i" by simp_all
  from Suc.prems lt have small: "size_t_add i off = off + i"
    by (simp add: size_t_add_def)
  let ?row = "row_vector[off + i := cache ! i]"
  from Suc.prems have "off + end_index \<le> length ?row" "length ?row < 2 ^ 64" by simp_all
  from Suc.hyps(1) [OF n Suc.prems(1) this]
  obtain r where r: "store_loop (Suc i) end_index ?row cache off = Inr r"
    "length r = length row_vector"
    "\<forall>j<length row_vector. r ! j = (if off + Suc i \<le> j \<and> j < off + end_index
                                      then cache ! (j - off) else ?row ! j)"
    by auto
  from lt Suc.prems small r(1) have "store_loop i end_index row_vector cache off = Inr r"
    by (simp add: store_loop.simps [of i])
  moreover have "\<forall>j<length row_vector. r ! j =
      (if off + i \<le> j \<and> j < off + end_index then cache ! (j - off) else row_vector ! j)"
  proof (intro allI impI)
    fix j
    assume j: "j < length row_vector"
    consider "j = off + i" | "off + Suc i \<le> j" | "j < off + i" by arith
    then show "r ! j =
      (if off + i \<le> j \<and> j < off + end_index then cache ! (j - off) else row_vector ! j)"
      using r(3) j lt by cases (simp_all add: nth_list_update)
  qed
  ultimately show ?case using r(2) by blast
qed

lemma unroll_load_window:
  assumes "off + W \<le> length row_vector" and "length row_vector < 2 ^ 64"
  shows "unroll_load (replicate W dflt) row_vector off [0..<W] = Inr (take W (drop off row_vector))"
proof -
  have small: "size_t_add off idx = off + idx" if "idx < W" for idx
    using that assms by (intro size_t_add_small) simp
  with assms have "\<forall>idx\<in>set [0..<W]. idx < length (replicate W dflt) \<and>
      size_t_add off idx < length row_vector" by simp
  from unroll_load_Inr [OF this] obtain c where
    c: "unroll_load (replicate W dflt) row_vector off [0..<W] = Inr c" "length c = W"
      "\<forall>j<W. c ! j = row_vector ! size_t_add off j"
    by auto
  from c(2,3) small assms have "c = take W (drop off row_vector)"
    by (intro nth_equalityI) simp_all
  with c(1) show ?thesis by simp
qed

lemma unroll_store_window:
  assumes "off + W \<le> length row_vector" and "length row_vector < 2 ^ 64" and "length c = W"
  shows "unroll_store row_vector c off [0..<W] =
           Inr (take off row_vector @ c @ drop (off + W) row_vector)"
proof -
  from assms have ok: "\<forall>idx\<in>set [0..<W]. idx < length c \<and> off + idx < length row_vector"
    by simp
  from unroll_store_frame [OF ok assms(2)] obtain r where
    r: "unroll_store row_vector c off [0..<W] = Inr r" "length r = length row_vector"
      "\<forall>j<length row_vector. j \<notin> (\<lambda>idx. off + idx) ` set [0..<W] \<longrightarrow> r ! j = row_vector ! j"
    by auto
  from unroll_store_written [OF ok assms(2)] r(1)
  have w: "\<forall>idx<W. r ! (off + idx) = c ! idx" by simp
  have "r = take off row_vector @ c @ drop (off + W) row_vector"
  proof (rule nth_equalityI)
    show "length r = length (take off row_vector @ c @ drop (off + W) row_vector)"
      using r(2) assms by simp
  next
    fix j
    assume "j < length r"
    with r(2) have j: "j < length row_vector" by simp
    consider "j < off" | "off \<le> j" "j < off + W" | "off + W \<le> j" by arith
    then show "r ! j = (take off row_vector @ c @ drop (off + W) row_vector) ! j"
    proof cases
      case 1
      then have "j \<notin> (\<lambda>idx. off + idx) ` set [0..<W]" by auto
      with r(3) j 1 assms show ?thesis by (simp add: nth_append)
    next
      case 2
      then have jo: "j = off + (j - off)" "j - off < W" by simp_all
      with w have "r ! j = c ! (j - off)" by metis
      with 2 jo(2) assms show ?thesis by (simp add: nth_append)
    next
      case 3
      then have "j \<notin> (\<lambda>idx. off + idx) ` set [0..<W]" by auto
      with r(3) j have "r ! j = row_vector ! j" by simp
      moreover from 3 have "\<not> j < off" "\<not> j - off < W" "off + W + (j - off - W) = j"
        by arith+
      with assms have "(take off row_vector @ c @ drop (off + W) row_vector) ! j
          = row_vector ! j"
        by (simp add: nth_append)
      ultimately show ?thesis by simp
    qed
  qed
  with r(1) show ?thesis by simp
qed


lemma lane_construct_not_last:
  assumes "row_offset_arg + 1 + W \<le> length (row blk)" and "length (row blk) < 2 ^ 64"
  shows "lane_construct False W dflt blk row_offset_arg =
           Inr \<lparr>dp_block = blk, cached_row = take W (drop (row_offset_arg + 1) (row blk)),
                row_offset = row_offset_arg + 1\<rparr>"
proof -
  from assms have "size_t_add row_offset_arg 1 = row_offset_arg + 1"
    by (intro size_t_add_small) simp
  then have off: "size_t_add row_offset_arg (Suc 0) = Suc row_offset_arg" by simp
  from assms show ?thesis
    by (simp add: lane_construct_def Let_def off unroll_load_window)
qed

lemma lane_destruct_not_last:
  assumes "row_offset ln + W \<le> length (row (dp_block ln))"
    and "length (row (dp_block ln)) < 2 ^ 64" and "length (cached_row ln) = W"
  shows "lane_destruct False W ln =
           Inr ((dp_block ln)\<lparr>row := take (row_offset ln) (row (dp_block ln)) @ cached_row ln @
                                     drop (row_offset ln + W) (row (dp_block ln))\<rparr>)"
  using assms by (simp add: lane_destruct_def Let_def unroll_store_window)

lemma load_loop_window:
  assumes "off + n = length row_vector" and "n \<le> W" and "length row_vector < 2 ^ 64"
  shows "load_loop 0 n (replicate W dflt) row_vector off =
           Inr (drop off row_vector @ replicate (W - n) dflt)"
proof -
  have small: "size_t_add j off = j + off" if "j < n" for j
    using that assms by (intro size_t_add_small) simp
  with assms have "\<forall>j. 0 \<le> j \<and> j < n \<longrightarrow>
      j < length (replicate W dflt) \<and> size_t_add j off < length row_vector" by simp
  from load_loop_Inr [OF this] obtain c where
    c: "load_loop 0 n (replicate W dflt) row_vector off = Inr c" "length c = W"
      "\<forall>j<W. c ! j = (if j < n then row_vector ! size_t_add j off else dflt)"
    by auto
  have "c = drop off row_vector @ replicate (W - n) dflt"
  proof (rule nth_equalityI)
    show "length c = length (drop off row_vector @ replicate (W - n) dflt)"
      using c(2) assms by simp
  next
    fix j
    assume "j < length c"
    with c(2) have j: "j < W" by simp
    show "c ! j = (drop off row_vector @ replicate (W - n) dflt) ! j"
    proof (cases "j < n")
      case True
      with assms have "j < length row_vector - off" by arith
      with True c(3) j small assms show ?thesis by (simp add: nth_append add.commute)
    next
      case False
      with assms have "\<not> j < length row_vector - off" "length row_vector - off = n" by arith+
      with False c(3) j assms show ?thesis by (simp add: nth_append)
    qed
  qed
  with c(1) show ?thesis by simp
qed

lemma store_loop_window:
  assumes "off + n = length row_vector" and "n \<le> length c" and "length row_vector < 2 ^ 64"
  shows "store_loop 0 n row_vector c off = Inr (take off row_vector @ take n c)"
proof -
  from assms have "off + n \<le> length row_vector" by simp
  from store_loop_Inr [OF assms(2) this assms(3), of 0] obtain r where
    r: "store_loop 0 n row_vector c off = Inr r" "length r = length row_vector"
      "\<forall>j<length row_vector. r ! j = (if off \<le> j \<and> j < off + n then c ! (j - off)
                                        else row_vector ! j)"
    by auto
  have "r = take off row_vector @ take n c"
  proof (rule nth_equalityI)
    show "length r = length (take off row_vector @ take n c)"
      using r(2) assms by simp
  next
    fix j
    assume "j < length r"
    with r(2) have j: "j < length row_vector" by simp
    show "r ! j = (take off row_vector @ take n c) ! j"
    proof (cases "j < off")
      case True
      with r(3) j assms show ?thesis by (simp add: nth_append)
    next
      case False
      with j assms have "j - off < n" "off \<le> j" "j < off + n" by arith+
      with r(3) j False assms show ?thesis by (simp add: nth_append)
    qed
  qed
  with r(1) show ?thesis by simp
qed

lemma lane_construct_last:
  assumes "length (row blk) < 2 ^ 64" and "row_offset_arg + 1 \<le> length (row blk)"
    and "length (row blk) - (row_offset_arg + 1) \<le> W"
  shows "lane_construct True W dflt blk row_offset_arg =
           Inr \<lparr>dp_block = blk,
                cached_row = drop (row_offset_arg + 1) (row blk) @
                  replicate (W - (length (row blk) - (row_offset_arg + 1))) dflt,
                row_offset = row_offset_arg + 1\<rparr>"
proof -
  from assms have "size_t_add row_offset_arg 1 = row_offset_arg + 1"
    by (intro size_t_add_small) simp
  then have off: "size_t_add row_offset_arg (Suc 0) = Suc row_offset_arg" by simp
  from assms have e: "size_t_sub (length (row blk)) (Suc row_offset_arg) =
      length (row blk) - Suc row_offset_arg"
    by (intro size_t_sub_small) simp_all
  from assms have "load_loop 0 (length (row blk) - Suc row_offset_arg) (replicate W dflt)
      (row blk) (Suc row_offset_arg) =
    Inr (drop (Suc row_offset_arg) (row blk) @
         replicate (W - (length (row blk) - Suc row_offset_arg)) dflt)"
    by (intro load_loop_window) simp_all
  then show ?thesis
    by (simp add: lane_construct_def Let_def off e)
qed

lemma lane_destruct_last:
  assumes "length (row (dp_block ln)) < 2 ^ 64" and "row_offset ln \<le> length (row (dp_block ln))"
    and "length (row (dp_block ln)) - row_offset ln \<le> length (cached_row ln)"
  shows "lane_destruct True W ln =
           Inr ((dp_block ln)\<lparr>row := take (row_offset ln) (row (dp_block ln)) @
                  take (length (row (dp_block ln)) - row_offset ln) (cached_row ln)\<rparr>)"
proof -
  from assms have e: "size_t_sub (length (row (dp_block ln))) (row_offset ln) =
      length (row (dp_block ln)) - row_offset ln"
    by (intro size_t_sub_small) simp_all
  from assms have "store_loop 0 (length (row (dp_block ln)) - row_offset ln)
      (row (dp_block ln)) (cached_row ln) (row_offset ln) =
    Inr (take (row_offset ln) (row (dp_block ln)) @
         take (length (row (dp_block ln)) - row_offset ln) (cached_row ln))"
    by (intro store_loop_window) simp_all
  then show ?thesis
    by (simp add: lane_destruct_def Let_def e)
qed

lemma load_loop_Inl: "load_loop i end_index cache row_vector off = Inl e \<Longrightarrow> e = OutOfBounds"
proof (induction i end_index cache row_vector off rule: load_loop.induct)
  case (1 i end_index cache row_vector off)
  then show ?case
    by (simp add: load_loop.simps [of i] split: if_splits)
qed

text \<open>
  The loop bound of the last lane is not clamped to \<open>W\<close>: with more than \<open>W\<close> row cells
  after index \<open>row_offset\<close>, or with no row cell at index \<open>row_offset\<close>, the constructor
  leaves the cache or the row.
\<close>

lemma last_lane_not_clamped:
  assumes "length (row blk) < 2 ^ 64" and "row_offset_arg + 1 < 2 ^ 64"
    and "length (row blk) < row_offset_arg + 1 \<or> W < length (row blk) - (row_offset_arg + 1)"
  shows "lane_construct True W dflt blk row_offset_arg = Inl OutOfBounds"
proof -
  let ?off = "size_t_add row_offset_arg 1"
  let ?end = "size_t_sub (length (row blk)) ?off"
  from assms have off: "?off = row_offset_arg + 1" by (intro size_t_add_small)
  have "load_loop 0 ?end (replicate W dflt) (row blk) ?off \<noteq> Inr c" for c
  proof
    assume "load_loop 0 ?end (replicate W dflt) (row blk) ?off = Inr c"
    from load_loop_Inr_D [OF this]
    have ok: "\<forall>j. j < ?end \<longrightarrow> j < W \<and> size_t_add j ?off < length (row blk)" by simp
    from assms(3) show False
    proof
      assume lt: "length (row blk) < row_offset_arg + 1"
      with assms have "length (row blk) + 2 ^ 64 - (row_offset_arg + 1) < 2 ^ 64"
        and "0 < length (row blk) + 2 ^ 64 - (row_offset_arg + 1)" by arith+
      with assms off have "0 < ?end" by (simp add: size_t_sub_def)
      with ok have "size_t_add 0 ?off < length (row blk)" by blast
      with off assms lt show False by (simp add: size_t_add_def)
    next
      assume gt: "W < length (row blk) - (row_offset_arg + 1)"
      with assms off have "?end = length (row blk) - (row_offset_arg + 1)"
        by (simp add: size_t_sub_small)
      with gt ok show False by auto
    qed
  qed
  then obtain e where "load_loop 0 ?end (replicate W dflt) (row blk) ?off = Inl e"
    by (cases "load_loop 0 ?end (replicate W dflt) (row blk) ?off") auto
  moreover from this have "e = OutOfBounds" by (rule load_loop_Inl)
  ultimately show ?thesis by (simp add: lane_construct_def Let_def)
qed

section \<open>Lanes that are not the last one\<close>

text \<open>
  Claim C8, amended. A lane that is not the last one, constructed with the argument
  \<open>row_offset\<close> over a row with at least \<open>row_offset + 1 + W\<close> cells, loads exactly the
  \<open>W\<close> consecutive row cells that start at index \<open>row_offset + 1\<close>, and its destructor
  stores the \<open>W\<close> cached cells back to the same indices.
\<close>

theorem lane_bulk_transfer:
  assumes "row_offset_arg + 1 + W \<le> length (row blk)" and "length (row blk) < 2 ^ 64"
  shows "lane_construct False W dflt blk row_offset_arg =
           Inr \<lparr>dp_block = blk, cached_row = take W (drop (row_offset_arg + 1) (row blk)),
                row_offset = row_offset_arg + 1\<rparr> \<and>
         (\<forall>c. length c = W \<longrightarrow>
            lane_destruct False W \<lparr>dp_block = blk, cached_row = c, row_offset = row_offset_arg + 1\<rparr> =
              Inr (blk\<lparr>row := take (row_offset_arg + 1) (row blk) @ c @
                              drop (row_offset_arg + 1 + W) (row blk)\<rparr>))"
  using assms lane_construct_not_last [OF assms, of dflt]
  by (simp add: lane_destruct_not_last)

theorem lane_bulk_transfer_witness:
  "lane_construct False 4 99 example_block 5 =
     Inr \<lparr>dp_block = example_block, cached_row = [6, 7, 8, 9], row_offset = 6\<rparr> \<and>
   lane_destruct False 4 \<lparr>dp_block = example_block, cached_row = [20, 21, 22, 23], row_offset = 6\<rparr> =
     Inr (example_block\<lparr>row := [0, 1, 2, 3, 4, 5, 20, 21, 22, 23]\<rparr>)"
  using lane_bulk_transfer [of 5 4 example_block 99]
  by (simp add: example_block_def)

text \<open>
  Claim C8 as stated lets the loaded window start at index \<open>row_offset\<close>. Constructed
  with \<open>row_offset = 0\<close> over the row \<open>0, 1, \<dots>, 9\<close>, a lane of width 4 caches the cells
  \<open>1, 2, 3, 4\<close>, not \<open>0, 1, 2, 3\<close>.
\<close>

theorem lane_load_starts_after_row_offset:
  "lane_construct False 4 99 example_block 0 =
     Inr \<lparr>dp_block = example_block, cached_row = [1, 2, 3, 4], row_offset = 1\<rparr> \<and>
   [1, 2, 3, 4] \<noteq> take 4 (drop 0 (row example_block))"
  by (simp add: lane_construct_def example_block_def size_t_add_def replicate_numeral
      upt_conv_Cons)

text \<open>
  Claim C10. A lane that is not the last one is constructed with the argument
  \<open>row_offset\<close>; its cached cells and the column of its block may then change in any way.
  Its destructor returns the block with that column, with a row of the same length, and
  with every row cell outside the indices from \<open>row_offset + 1\<close> up to but excluding
  \<open>row_offset + 1 + W\<close> as it was.
\<close>

theorem lane_destruct_frame:
  assumes "row_offset_arg + 1 + W \<le> length (row blk)" and "length (row blk) < 2 ^ 64"
    and "length c = W"
  shows "\<exists>ln blk'.
           lane_construct False W dflt blk row_offset_arg = Inr ln \<and>
           lane_destruct False W (ln\<lparr>cached_row := c, dp_block := (dp_block ln)\<lparr>column := col\<rparr>\<rparr>)
             = Inr blk' \<and>
           column blk' = col \<and> length (row blk') = length (row blk) \<and>
           (\<forall>j<length (row blk). j < row_offset_arg + 1 \<or> row_offset_arg + 1 + W \<le> j \<longrightarrow>
                row blk' ! j = row blk ! j)"
proof -
  let ?ln = "\<lparr>dp_block = blk, cached_row = take W (drop (row_offset_arg + 1) (row blk)),
              row_offset = row_offset_arg + 1\<rparr>"
  let ?ln' = "?ln\<lparr>cached_row := c, dp_block := (dp_block ?ln)\<lparr>column := col\<rparr>\<rparr>"
  let ?row' = "take (row_offset_arg + 1) (row blk) @ c @ drop (row_offset_arg + 1 + W) (row blk)"
  have con: "lane_construct False W dflt blk row_offset_arg = Inr ?ln"
    using assms(1,2) by (rule lane_construct_not_last)
  have "lane_destruct False W ?ln' = Inr ((dp_block ?ln')\<lparr>row := ?row'\<rparr>)"
    using assms lane_destruct_not_last [of ?ln' W] by simp
  then have des: "lane_destruct False W ?ln' = Inr (blk\<lparr>column := col, row := ?row'\<rparr>)"
    by simp
  have len: "length ?row' = length (row blk)" using assms by simp
  have frame: "?row' ! j = row blk ! j"
    if "j < length (row blk)" "j < row_offset_arg + 1 \<or> row_offset_arg + 1 + W \<le> j" for j
  proof (cases "j < row_offset_arg + 1")
    case True
    with assms show ?thesis by (simp add: nth_append)
  next
    case False
    with that have "\<not> j - (row_offset_arg + 1) < W"
      "row_offset_arg + 1 + W + (j - (row_offset_arg + 1) - W) = j" by arith+
    with False assms show ?thesis by (simp add: nth_append)
  qed
  from con des len frame show ?thesis by simp
qed

theorem lane_destruct_frame_witness:
  "(5::nat) + 1 + 4 \<le> length (row example_block) \<and>
   (\<exists>ln blk'.
     lane_construct False 4 99 example_block 5 = Inr ln \<and>
     lane_destruct False 4 (ln\<lparr>cached_row := [20, 21, 22, 23],
        dp_block := (dp_block ln)\<lparr>column := [1, 2]\<rparr>\<rparr>) = Inr blk' \<and>
     column blk' = [1, 2] \<and> length (row blk') = length (row example_block) \<and>
     (\<forall>j<length (row example_block). j < 5 + 1 \<or> 5 + 1 + 4 \<le> j \<longrightarrow>
        row blk' ! j = row example_block ! j))"
proof -
  have fits: "(5::nat) + 1 + 4 \<le> length (row example_block)"
    and small: "length (row example_block) < 2 ^ 64"
    by (simp_all add: example_block_def)
  have len: "length [20, 21, 22, 23 :: nat] = 4" by simp
  from lane_destruct_frame [OF fits small len, of 99 "[1, 2]"] fits show ?thesis
    by blast
qed

section \<open>The last lane\<close>

text \<open>
  Claim C6, amended. Let \<open>n\<close> be the number of row cells after index \<open>row_offset\<close>, that
  is \<open>row.size() - (row_offset + 1)\<close>. If the row has more than \<open>row_offset\<close> cells and
  \<open>n \<le> W\<close>, the constructor of the last lane loads exactly these \<open>n\<close> cells into the
  cache indices below \<open>n\<close> (the other cache cells stay as default-initialised), the
  destructor stores exactly the first \<open>n\<close> cached cells back behind index \<open>row_offset\<close>,
  and no access leaves the cache or the row.
\<close>

theorem last_lane_transfer:
  assumes "length (row blk) < 2 ^ 64" and "row_offset_arg + 1 \<le> length (row blk)"
    and "length (row blk) - (row_offset_arg + 1) \<le> W"
  shows "lane_construct True W dflt blk row_offset_arg =
           Inr \<lparr>dp_block = blk,
                cached_row = drop (row_offset_arg + 1) (row blk) @
                  replicate (W - (length (row blk) - (row_offset_arg + 1))) dflt,
                row_offset = row_offset_arg + 1\<rparr> \<and>
         (\<forall>c. length c = W \<longrightarrow>
            lane_destruct True W \<lparr>dp_block = blk, cached_row = c, row_offset = row_offset_arg + 1\<rparr> =
              Inr (blk\<lparr>row := take (row_offset_arg + 1) (row blk) @
                              take (length (row blk) - (row_offset_arg + 1)) c\<rparr>))"
  using assms lane_construct_last [OF assms, of dflt]
  by (simp add: lane_destruct_last)

theorem last_lane_transfer_witness:
  "lane_construct True 4 99 example_block 7 =
     Inr \<lparr>dp_block = example_block, cached_row = [8, 9, 99, 99], row_offset = 8\<rparr> \<and>
   lane_destruct True 4 \<lparr>dp_block = example_block, cached_row = [20, 21, 22, 23], row_offset = 8\<rparr> =
     Inr (example_block\<lparr>row := [0, 1, 2, 3, 4, 5, 6, 7, 20, 21]\<rparr>)"
  using last_lane_transfer [of example_block 7 4 99]
  by (simp add: example_block_def replicate_numeral)

text \<open>
  Claim C6 as stated bounds the transfer by \<open>W\<close>. Constructed with \<open>row_offset = 0\<close>
  over a row of ten cells, the last lane of width 4 has the loop bound 9 and leaves the
  cache at index 4.
\<close>

theorem last_lane_overruns_cache:
  "lane_construct True 4 99 example_block 0 = Inl OutOfBounds"
  by (simp add: lane_construct_def example_block_def size_t_add_def size_t_sub_def
      load_loop.simps replicate_numeral)

section \<open>The round trip of a lane\<close>

lemma lane_round_trip_aux_last:
  assumes "load_loop 0 end_index cache row_vector off = Inr c"
  shows "store_loop 0 end_index row_vector c off = Inr row_vector"
proof -
  from load_loop_Inr_D [OF assms]
  have ok: "\<forall>j. 0 \<le> j \<and> j < end_index \<longrightarrow> j < length cache \<and> size_t_add j off < length row_vector" .
  from load_loop_Inr [OF ok] assms
  have c: "length c = length cache"
    "\<forall>j<length cache. c ! j = (if 0 \<le> j \<and> j < end_index
                                 then row_vector ! size_t_add j off else cache ! j)"
    by auto
  from ok c show ?thesis
    by (intro store_loop_same) simp
qed

lemma lane_round_trip_aux:
  assumes "unroll_load cache row_vector off indices = Inr c"
  shows "unroll_store row_vector c off indices = Inr row_vector"
proof -
  from unroll_load_Inr_D [OF assms]
  have ok: "\<forall>idx\<in>set indices. idx < length cache \<and> size_t_add off idx < length row_vector" .
  from unroll_load_Inr [OF ok] assms
  have c: "length c = length cache"
    "\<forall>j<length cache. c ! j = (if j \<in> set indices then row_vector ! size_t_add off j
                                 else cache ! j)"
    by auto
  from ok c show ?thesis
    by (intro unroll_store_same) simp
qed

lemma lane_construct_fits:
  assumes "lane_fits is_last_lane W (length (row blk)) row_offset_arg"
  shows "\<exists>ln. lane_construct is_last_lane W dflt blk row_offset_arg = Inr ln"
proof (cases is_last_lane)
  case True
  with assms lane_construct_last [of blk row_offset_arg W dflt] show ?thesis
    by (simp add: lane_fits_def)
next
  case False
  with assms lane_construct_not_last [of row_offset_arg W blk dflt] show ?thesis
    by (simp add: lane_fits_def)
qed

text \<open>
  Claim C7. Whenever the constructor of a lane, last or not, has run within the bounds
  of the row and of the cache, the destructor of the unmodified lane also does and returns
  the block unchanged: the row is what it was. The constructor does run within bounds
  where the window of the lane fits the row and the cache.
\<close>

theorem lane_round_trip:
  "(lane_construct is_last_lane W dflt blk row_offset_arg = Inr ln \<longrightarrow>
      lane_destruct is_last_lane W ln = Inr blk) \<and>
   (lane_fits is_last_lane W (length (row blk)) row_offset_arg \<longrightarrow>
      (\<exists>ln'. lane_construct is_last_lane W dflt blk row_offset_arg = Inr ln' \<and>
             lane_destruct is_last_lane W ln' = Inr blk))"
proof -
  let ?off = "size_t_add row_offset_arg 1"
  have round: "lane_destruct is_last_lane W l = Inr blk"
    if con: "lane_construct is_last_lane W dflt blk row_offset_arg = Inr l" for l
  proof (cases is_last_lane)
    case True
    let ?end = "size_t_sub (length (row blk)) ?off"
    from con True obtain c where
      c: "load_loop 0 ?end (replicate W dflt) (row blk) ?off = Inr c"
      and l: "l = \<lparr>dp_block = blk, cached_row = c, row_offset = ?off\<rparr>"
      by (auto simp: lane_construct_def Let_def split: sum.splits)
    from lane_round_trip_aux_last [OF c] True l show ?thesis
      by (simp add: lane_destruct_def Let_def)
  next
    case False
    from con False obtain c where
      c: "unroll_load (replicate W dflt) (row blk) ?off [0..<W] = Inr c"
      and l: "l = \<lparr>dp_block = blk, cached_row = c, row_offset = ?off\<rparr>"
      by (auto simp: lane_construct_def Let_def split: sum.splits)
    from lane_round_trip_aux [OF c] False l show ?thesis
      by (simp add: lane_destruct_def Let_def)
  qed
  from round lane_construct_fits [of is_last_lane W blk row_offset_arg dflt]
  show ?thesis by blast
qed

theorem lane_round_trip_witness:
  "lane_fits True 4 (length (row example_block)) 7 \<and>
   lane_construct True 4 99 example_block 7 =
     Inr \<lparr>dp_block = example_block, cached_row = [8, 9, 99, 99], row_offset = 8\<rparr> \<and>
   lane_destruct True 4 \<lparr>dp_block = example_block, cached_row = [8, 9, 99, 99], row_offset = 8\<rparr> =
     Inr example_block"
proof -
  have fits: "lane_fits True 4 (length (row example_block)) 7"
    by (simp add: lane_fits_def example_block_def)
  have con: "lane_construct True 4 99 example_block 7 =
     Inr \<lparr>dp_block = example_block, cached_row = [8, 9, 99, 99], row_offset = 8\<rparr>"
    by (simp add: lane_construct_def example_block_def size_t_add_def size_t_sub_def
        load_loop.simps replicate_numeral)
  from lane_round_trip [of True 4 99 example_block 7
      "\<lparr>dp_block = example_block, cached_row = [8, 9, 99, 99], row_offset = 8\<rparr>"] fits con
  show ?thesis by simp
qed

section \<open>Empty input\<close>

lemma slices_Nil: "slices n [] = []"
  by (simp add: slices.simps)

lemma for_each_block_skip: "for_each_block (\<lambda>b. for_each_block (f b) []) bs st = Inr st"
  by (induction bs) simp_all

lemma run_empty:
  assumes "seq1 = [] \<or> seq2 = []"
  shows "run H_col W_row compute_block strategy gm seq1 seq2 =
           Inr \<lparr>score = fst (strategy gm (if seq1 = [] then length seq2 else length seq1))\<rparr>"
proof -
  let ?col = "map (strategy gm) [0..<length seq1 + 1]"
  let ?row = "map (strategy gm) [0..<length seq2 + 1]"
  have "for_each_block (\<lambda>column_slice. for_each_block (compute_block column_slice)
           (slices W_row seq2)) (slices H_col seq1) (?col, ?row) = Inr (?col, ?row)"
    using assms by (auto simp: slices_Nil for_each_block_skip)
  moreover have "last ?col = strategy gm (length seq1)" "last ?row = strategy gm (length seq2)"
    by (simp_all add: last_map)
  ultimately show ?thesis
    by (simp add: run_def initialise_column_vector_def initialise_row_vector_def
        initialise_def Let_def bottom_right_cell_def)
qed

text \<open>
  Claim C9. Where either sequence is empty, \<open>compute\<close> processes no block, raises no
  error whatever the block computation would do, and returns a seed value of the
  initialisation: with \<open>seq2\<close> empty the seed of the last cell of the column vector, at
  index \<open>length seq1\<close>; with \<open>seq1\<close> empty the seed of the last cell of the row vector, at
  index \<open>length seq2\<close>. In particular, with the affine initialisation, gap open score \<open>-4\<close>
  and gap extension score \<open>-1\<close>, the global alignment of \<open>ACGT\<close> against the empty
  sequence returns \<open>-8\<close>, whichever of the two is the empty one; the substitution scores
  do not enter.
\<close>

theorem compute_empty_sequence:
  "(seq2 = [] \<longrightarrow>
      compute H_col W_row compute_block strategy gm seq1 seq2 =
        Inr (fst (strategy gm (length seq1)))) \<and>
   (seq1 = [] \<longrightarrow>
      compute H_col W_row compute_block strategy gm seq1 seq2 =
        Inr (fst (strategy gm (length seq2)))) \<and>
   compute H_col W_row dna_block (affine_initialisation_strategy sentinel)
     \<lparr>gap_open_score = - 4, gap_extension_score = - 1\<rparr> ''ACGT'' [] = Inr (- 8) \<and>
   compute H_col W_row dna_block (affine_initialisation_strategy sentinel)
     \<lparr>gap_open_score = - 4, gap_extension_score = - 1\<rparr> [] ''ACGT'' = Inr (- 8)"
proof -
  have general: "compute H W f st g s1 s2 =
      Inr (fst (st g (if s1 = [] then length s2 else length s1)))"
    if "s1 = [] \<or> s2 = []" for s1 s2 H W
      and f :: "'x list \<Rightarrow> 'y list \<Rightarrow> (int \<times> int) list \<times> (int \<times> int) list \<Rightarrow>
                 'z + (int \<times> int) list \<times> (int \<times> int) list"
      and st g
    using that by (simp add: compute_def run_empty)
  have "seq2 = [] \<longrightarrow> compute H_col W_row compute_block strategy gm seq1 seq2 =
      Inr (fst (strategy gm (length seq1)))"
    using general [of seq1 seq2 H_col W_row compute_block strategy gm] by auto
  moreover have "seq1 = [] \<longrightarrow> compute H_col W_row compute_block strategy gm seq1 seq2 =
      Inr (fst (strategy gm (length seq2)))"
    using general [of seq1 seq2 H_col W_row compute_block strategy gm] by auto
  moreover have "compute H_col W_row dna_block (affine_initialisation_strategy sentinel)
     \<lparr>gap_open_score = - 4, gap_extension_score = - 1\<rparr> ''ACGT'' [] = Inr (- 8)"
    using general [of "''ACGT''" "[]" H_col W_row dna_block
        "affine_initialisation_strategy sentinel"
        "\<lparr>gap_open_score = - 4, gap_extension_score = - 1\<rparr>"]
    by (simp add: affine_initialisation_strategy_def)
  moreover have "compute H_col W_row dna_block (affine_initialisation_strategy sentinel)
     \<lparr>gap_open_score = - 4, gap_extension_score = - 1\<rparr> [] ''ACGT'' = Inr (- 8)"
    using general [of "[]" "''ACGT''" H_col W_row dna_block
        "affine_initialisation_strategy sentinel"
        "\<lparr>gap_open_score = - 4, gap_extension_score = - 1\<rparr>"]
    by (simp add: affine_initialisation_strategy_def)
  ultimately show ?thesis by blast
qed

theorem compute_empty_sequence_witness:
  "compute 2 2 failing_block (affine_initialisation_strategy 0)
     \<lparr>gap_open_score = - 4, gap_extension_score = - 1\<rparr> ''ACGT'' [] =
   Inr (fst (affine_initialisation_strategy 0
     \<lparr>gap_open_score = - 4, gap_extension_score = - 1\<rparr> (length ''ACGT''))) \<and>
   compute 2 2 failing_block (affine_initialisation_strategy 0)
     \<lparr>gap_open_score = - 4, gap_extension_score = - 1\<rparr> [] ''ACG'' =
   Inr (fst (affine_initialisation_strategy 0
     \<lparr>gap_open_score = - 4, gap_extension_score = - 1\<rparr> (length ''ACG''))) \<and>
   compute 2 2 failing_block (affine_initialisation_strategy 0)
     \<lparr>gap_open_score = - 4, gap_extension_score = - 1\<rparr> [] ''ACG'' = Inr (- 7)"
  using compute_empty_sequence [of "[]" 2 2 failing_block
      "affine_initialisation_strategy 0" "\<lparr>gap_open_score = - 4, gap_extension_score = - 1\<rparr>"
      "''ACGT''" failing_block 0]
    compute_empty_sequence [of "''ACG''" 2 2 failing_block
      "affine_initialisation_strategy 0" "\<lparr>gap_open_score = - 4, gap_extension_score = - 1\<rparr>"
      "[]" failing_block 0]
  by (simp add: affine_initialisation_strategy_def)

end
